theory Spec2Isabelle
  imports
    Main
    "HOL-Library.Multiset"
    "HOL-Library.List_Lexorder"
    "HOL-Library.Code_Target_Nat"
begin

section \<open>Python strings\<close>

text \<open>
  A Python \<open>str\<close> is a sequence of code points, here a list of natural numbers, so
  \<open>length\<close> counts what Python's \<open>len\<close> counts. A \<open>str\<close> holds code points below
  \<open>0x110000\<close>, surrogates included. \<open>py\<close> gives the \<open>str\<close> of a literal whose
  characters are below 256.
\<close>

type_synonym str = "nat list"

definition py :: "string \<Rightarrow> str" where
  "py s = map of_char s"

abbreviation dquote :: nat where "dquote \<equiv> 34"
abbreviation bslash :: nat where "bslash \<equiv> 92"
abbreviation newline :: nat where "newline \<equiv> 10"

text \<open>
  \<open>str.isspace\<close> for one code point, which \<open>str.strip()\<close>, \<open>str.split()\<close> and the
  pattern \<open>\\s\<close> of \<open>re\<close> all use (\<open>Py_UNICODE_ISSPACE\<close>).
\<close>

definition isspace :: "nat \<Rightarrow> bool" where
  "isspace c =
     ((9 \<le> c \<and> c \<le> 13) \<or> (28 \<le> c \<and> c \<le> 32) \<or> c = 0x85 \<or> c = 0xA0
      \<or> c = 0x1680 \<or> (0x2000 \<le> c \<and> c \<le> 0x200A) \<or> c = 0x2028 \<or> c = 0x2029
      \<or> c = 0x202F \<or> c = 0x205F \<or> c = 0x3000)"

text \<open>
  The code points that \<open>\\d\<close> matches in a \<open>str\<close> pattern: the decimal digits of
  Unicode (\<open>Py_UNICODE_ISDECIMAL\<close>), as ranges, first and last; the table is that of
  Unicode 14.0 (Python 3.11).
\<close>

definition decimal_ranges :: "(nat \<times> nat) list" where
  "decimal_ranges =
     [(0x30, 0x39), (0x660, 0x669), (0x6F0, 0x6F9), (0x7C0, 0x7C9), (0x966, 0x96F),
      (0x9E6, 0x9EF), (0xA66, 0xA6F), (0xAE6, 0xAEF), (0xB66, 0xB6F), (0xBE6, 0xBEF),
      (0xC66, 0xC6F), (0xCE6, 0xCEF), (0xD66, 0xD6F), (0xDE6, 0xDEF), (0xE50, 0xE59),
      (0xED0, 0xED9), (0xF20, 0xF29), (0x1040, 0x1049), (0x1090, 0x1099),
      (0x17E0, 0x17E9), (0x1810, 0x1819), (0x1946, 0x194F), (0x19D0, 0x19D9),
      (0x1A80, 0x1A89), (0x1A90, 0x1A99), (0x1B50, 0x1B59), (0x1BB0, 0x1BB9),
      (0x1C40, 0x1C49), (0x1C50, 0x1C59), (0xA620, 0xA629), (0xA8D0, 0xA8D9),
      (0xA900, 0xA909), (0xA9D0, 0xA9D9), (0xA9F0, 0xA9F9), (0xAA50, 0xAA59),
      (0xABF0, 0xABF9), (0xFF10, 0xFF19), (0x104A0, 0x104A9), (0x10D30, 0x10D39),
      (0x11066, 0x1106F), (0x110F0, 0x110F9), (0x11136, 0x1113F), (0x111D0, 0x111D9),
      (0x112F0, 0x112F9), (0x11450, 0x11459), (0x114D0, 0x114D9), (0x11650, 0x11659),
      (0x116C0, 0x116C9), (0x11730, 0x11739), (0x118E0, 0x118E9), (0x11950, 0x11959),
      (0x11C50, 0x11C59), (0x11D50, 0x11D59), (0x11DA0, 0x11DA9), (0x16A60, 0x16A69),
      (0x16AC0, 0x16AC9), (0x16B50, 0x16B59), (0x1D7CE, 0x1D7FF), (0x1E140, 0x1E149),
      (0x1E2F0, 0x1E2F9), (0x1E950, 0x1E959), (0x1FBF0, 0x1FBF9)]"

definition isdigit :: "nat \<Rightarrow> bool" where
  "isdigit c = list_ex (\<lambda>r. fst r \<le> c \<and> c \<le> snd r) decimal_ranges"

text \<open>
  \<open>str.lower\<close>. On a string of code points below 256 it works code point by code
  point: the letters \<open>A\<close> to \<open>Z\<close> and \<open>0xC0\<close> to \<open>0xDE\<close> (but for the
  multiplication sign \<open>0xD7\<close>) move up by 32, the rest stay. For any other string the
  result is that of the standard library, the parameter \<open>unicode_lower\<close>: there the
  mapping has some 1400 entries, can lengthen the string, and depends on the context for
  the capital sigma.
\<close>

definition lower_latin1 :: "nat \<Rightarrow> nat" where
  "lower_latin1 c =
     (if (65 \<le> c \<and> c \<le> 90) \<or> (192 \<le> c \<and> c \<le> 222 \<and> c \<noteq> 215) then c + 32 else c)"

definition lower :: "(str \<Rightarrow> str) \<Rightarrow> str \<Rightarrow> str" where
  "lower unicode_lower s =
     (if list_all (\<lambda>c. c < 256) s then map lower_latin1 s else unicode_lower s)"

text \<open>\<open>s.strip()\<close>: whitespace removed at both ends.\<close>

definition strip :: "str \<Rightarrow> str" where
  "strip s = rev (dropWhile isspace (rev (dropWhile isspace s)))"

text \<open>
  \<open>s.split()\<close>: the maximal runs of non-whitespace characters, in order; no empty
  strings.
\<close>

function split :: "str \<Rightarrow> str list" where
  "split s =
     (let s1 = dropWhile isspace s
      in if s1 = [] then []
         else takeWhile (\<lambda>c. \<not> isspace c) s1 # split (dropWhile (\<lambda>c. \<not> isspace c) s1))"
  by pat_completeness auto
termination
proof (relation "measure length", goal_cases)
  case 1
  show ?case by simp
next
  case (2 s s1)
  then have "s1 \<noteq> []" by simp
  then obtain c cs where s1: "s1 = c # cs"
    by (auto simp: neq_Nil_conv)
  from 2(1) s1 have "dropWhile isspace s = c # cs" by simp
  then have nsp: "\<not> isspace c"
    by (simp add: dropWhile_eq_Cons_conv)
  have "length (dropWhile (\<lambda>c. \<not> isspace c) s1) \<le> length cs"
    using nsp s1 by (simp add: length_dropWhile_le)
  also have "\<dots> < length s1"
    using s1 by simp
  also have "length s1 \<le> length s"
    unfolding 2(1) by (rule length_dropWhile_le)
  finally have "length (dropWhile (\<lambda>c. \<not> isspace c) s1) < length s" .
  then show ?case by simp
qed

declare split.simps [simp del]

text \<open>
  \<open>query in text\<close> on strings: \<open>query\<close> occurs in \<open>text\<close> as a contiguous block.
\<close>

fun is_prefix :: "str \<Rightarrow> str \<Rightarrow> bool" where
  "is_prefix [] ys = True"
| "is_prefix (x # xs) [] = False"
| "is_prefix (x # xs) (y # ys) = (x = y \<and> is_prefix xs ys)"

fun contains :: "str \<Rightarrow> str \<Rightarrow> bool" where
  "contains [] q = (q = [])"
| "contains (c # cs) q = (is_prefix q (c # cs) \<or> contains cs q)"

text \<open>\<open>str(n)\<close> for a natural number: its decimal digits.\<close>

fun str_nat :: "nat \<Rightarrow> str" where
  "str_nat n =
     (if n < 10 then [48 + n]
      else str_nat (n div 10) @ [48 + n mod 10])"

declare str_nat.simps [simp del]

section \<open>The history-number pattern\<close>

text \<open>
  \<open>re.sub(r'^\\s*\\d+\\s+', '', s)\<close>. The pattern is anchored at the start of the string,
  so it matches at most once. Whitespace and digits are disjoint classes, so the only
  candidate match is: the longest run of whitespace, then the longest run of digits (at
  least one), then the longest run of whitespace (at least one); backtracking finds no
  other. Where the pattern does not match, \<open>re.sub\<close> returns \<open>s\<close> unchanged.
\<close>

definition sub_history_number :: "str \<Rightarrow> str" where
  "sub_history_number s =
     (let s1 = dropWhile isspace s;
          s2 = dropWhile isdigit s1
      in if takeWhile isdigit s1 \<noteq> [] \<and> takeWhile isspace s2 \<noteq> []
         then dropWhile isspace s2 else s)"

section \<open>Entries and their JSON text\<close>

text \<open>
  An entry is the dict \<open>log_command\<close> builds: four string values under the keys
  \<open>command\<close>, \<open>base_command\<close>, \<open>timestamp\<close> and \<open>full_command\<close>, inserted in this
  order.
\<close>

record entry =
  command :: str
  base_command :: str
  timestamp :: str
  full_command :: str

text \<open>
  \<open>json.dump(self.commands, f, indent=2)\<close>: strings are written by
  \<open>encode_basestring_ascii\<close> (the default \<open>ensure_ascii=True\<close>): the quote and the
  backslash are escaped, the control characters with a short escape take it, every other
  code point outside \<open>' '..'~'\<close> becomes \<open>\\uxxxx\<close> with four lower-case hexadecimal
  digits, and a code point from \<open>0x10000\<close> on becomes the two escapes of its surrogate
  pair. With an indent, items are separated by \<open>,\<close> plus a newline and the
  indentation, keys from values by a colon and a space; the empty list is \<open>[]\<close>.
\<close>

definition hexdigit :: "nat \<Rightarrow> nat" where
  "hexdigit d = (if d < 10 then 48 + d else 87 + d)"

definition hex4_digits :: "nat \<Rightarrow> str" where
  "hex4_digits n =
     [hexdigit (n div 4096 mod 16), hexdigit (n div 256 mod 16),
      hexdigit (n div 16 mod 16), hexdigit (n mod 16)]"

definition escape_char :: "nat \<Rightarrow> str" where
  "escape_char c =
     (if c = 34 then [bslash, dquote]
      else if c = 92 then [bslash, bslash]
      else if c = 8 then bslash # py ''b''
      else if c = 12 then bslash # py ''f''
      else if c = 10 then bslash # py ''n''
      else if c = 13 then bslash # py ''r''
      else if c = 9 then bslash # py ''t''
      else if 32 \<le> c \<and> c \<le> 126 then [c]
      else if c < 0x10000 then bslash # py ''u'' @ hex4_digits c
      else
        (let v = c - 0x10000
         in bslash # py ''u'' @ hex4_digits (0xD800 + v div 1024 mod 1024)
            @ bslash # py ''u'' @ hex4_digits (0xDC00 + v mod 1024)))"

definition encode_basestring_ascii :: "str \<Rightarrow> str" where
  "encode_basestring_ascii s = dquote # concat (map escape_char s) @ [dquote]"

definition dump_item :: "str \<Rightarrow> str \<Rightarrow> str" where
  "dump_item k v = encode_basestring_ascii k @ py '': '' @ encode_basestring_ascii v"

definition dump_entry :: "entry \<Rightarrow> str" where
  "dump_entry e =
     py ''{'' @ newline # py ''    '' @ dump_item (py ''command'') (command e)
     @ py '','' @ newline # py ''    '' @ dump_item (py ''base_command'') (base_command e)
     @ py '','' @ newline # py ''    '' @ dump_item (py ''timestamp'') (timestamp e)
     @ py '','' @ newline # py ''    '' @ dump_item (py ''full_command'') (full_command e)
     @ newline # py ''  '' @ py ''}''"

fun dump_entries :: "entry list \<Rightarrow> str" where
  "dump_entries [] = []"
| "dump_entries [e] = dump_entry e"
| "dump_entries (e # es) = dump_entry e @ py '','' @ newline # py ''  '' @ dump_entries es"

definition json_dump :: "entry list \<Rightarrow> str" where
  "json_dump es =
     (if es = [] then py ''[]''
      else py ''['' @ newline # py ''  '' @ dump_entries es @ newline # py '']'')"

section \<open>The tracker\<close>

text \<open>
  The state of a \<open>CommandTracker\<close>: the list \<open>self.commands\<close> in memory, and the text
  of the file \<open>commands.json\<close> on disk (\<open>None\<close> while the file does not exist).
\<close>

record tracker =
  commands :: "entry list"
  commands_file :: "str option"

text \<open>
  \<open>save_commands\<close>, when the write goes through: the file holds the JSON text of the
  whole list.
\<close>

definition save_commands :: "tracker \<Rightarrow> tracker" where
  "save_commands t = t\<lparr>commands_file := Some (json_dump (commands t))\<rparr>"

text \<open>
  \<open>save_commands\<close> when the write fails part way. \<open>open(..., 'w')\<close> truncates the
  file as it opens it and \<open>json.dump\<close> then writes the text from its start, so after a
  failure the file holds the first \<open>k\<close> characters of the new text, for the \<open>k\<close>
  that had reached the file. The previous content is gone from the moment of the
  \<open>open\<close>.
\<close>

definition save_commands_interrupted :: "nat \<Rightarrow> tracker \<Rightarrow> tracker" where
  "save_commands_interrupted k t = t\<lparr>commands_file := Some (take k (json_dump (commands t)))\<rparr>"

text \<open>
  \<open>log_command\<close>. The reading of the clock, \<open>datetime.now().isoformat()\<close>, is the
  argument \<open>now_iso\<close>. A line that is empty once stripped returns early: nothing is
  appended and nothing is written.
\<close>

definition log_command :: "str \<Rightarrow> str \<Rightarrow> tracker \<Rightarrow> tracker" where
  "log_command now_iso raw_line t =
     (let command_line = strip raw_line;
          cmd = strip (sub_history_number command_line)
      in if cmd = [] then t
         else
           let base = (case split cmd of [] \<Rightarrow> cmd | w # _ \<Rightarrow> w);
               e = \<lparr>command = cmd, base_command = base,
                    timestamp = now_iso, full_command = command_line\<rparr>;
               appended = commands t @ [e];
               kept = (if length appended > 10000
                       then drop (length appended - 10000) appended else appended)
           in save_commands (t\<lparr>commands := kept\<rparr>))"

section \<open>Reading the JSON text\<close>

text \<open>
  \<open>json.load\<close> on the text of the file, for the documents this program writes: a JSON
  array of objects, each with the four members \<open>command\<close>, \<open>base_command\<close>,
  \<open>timestamp\<close> and \<open>full_command\<close> in this order, every value a string. The
  decoder follows Python's: whitespace (space, tab, newline, carriage return) is skipped
  between tokens, before the document and after it; a string runs to the next unescaped
  quote; the escapes are the quote, the backslash, the slash, \<open>b f n r t\<close>, and \<open>u\<close>
  with four hexadecimal digits of either case, where a high surrogate followed by the
  escape of a low surrogate gives the one code point of the pair.

  There are three outcomes. \<open>Inr\<close> is the value \<open>json.load\<close> returns.
  \<open>Inl JSONDecodeError\<close> is that exception; the model gives it only where the text
  ends before the document is complete. \<open>Inl Unmodelled\<close> says nothing about
  \<open>json.load\<close>: it stands for every other text the model does not decode, whether
  Python refuses it or returns a value of another shape (other members or another order
  of them, numbers, nesting).
\<close>

datatype load_failure = JSONDecodeError | Unmodelled

definition and_then :: "load_failure + 'a \<Rightarrow> ('a \<Rightarrow> load_failure + 'b) \<Rightarrow> load_failure + 'b" where
  "and_then r f = (case r of Inl err \<Rightarrow> Inl err | Inr x \<Rightarrow> f x)"

definition json_ws :: "nat \<Rightarrow> bool" where
  "json_ws c = (c = 32 \<or> c = 9 \<or> c = 10 \<or> c = 13)"

definition skip_ws :: "str \<Rightarrow> str" where
  "skip_ws s = dropWhile json_ws s"

text \<open>The value of a hexadecimal digit, and of four of them.\<close>

definition hexval :: "nat \<Rightarrow> nat option" where
  "hexval c =
     (if 48 \<le> c \<and> c \<le> 57 then Some (c - 48)
      else if 97 \<le> c \<and> c \<le> 102 then Some (c - 87)
      else if 65 \<le> c \<and> c \<le> 70 then Some (c - 55)
      else None)"

definition hex4 :: "nat \<Rightarrow> nat \<Rightarrow> nat \<Rightarrow> nat \<Rightarrow> nat option" where
  "hex4 a b c d =
     Option.bind (hexval a) (\<lambda>x3.
     Option.bind (hexval b) (\<lambda>x2.
     Option.bind (hexval c) (\<lambda>x1.
     Option.bind (hexval d) (\<lambda>x0.
       Some (((x3 * 16 + x2) * 16 + x1) * 16 + x0)))))"

text \<open>
  The four digits after \<open>\\u\<close>: their value and the text after them. The text ending
  before the fourth digit is an error of \<open>json.load\<close>.
\<close>

definition read_hex4 :: "str \<Rightarrow> load_failure + nat \<times> str" where
  "read_hex4 s =
     (case s of
        h3 # h2 # h1 # h0 # rest \<Rightarrow>
          (case hex4 h3 h2 h1 h0 of None \<Rightarrow> Inl Unmodelled | Some u \<Rightarrow> Inr (u, rest))
      | _ \<Rightarrow> Inl JSONDecodeError)"

text \<open>
  After the escape of a high surrogate: the escape of a low surrogate, when the text goes
  on with one, gives its value and the text after it; anything else is left where it is.
  117 is the letter \<open>u\<close>.
\<close>

definition read_low :: "str \<Rightarrow> load_failure + (nat \<times> str) option" where
  "read_low s =
     (case s of
        x # y # s' \<Rightarrow>
          if x = 92 \<and> y = 117 \<and> 4 \<le> length s' then
            and_then (read_hex4 s') (\<lambda>(u2, rest).
              if 0xDC00 \<le> u2 \<and> u2 \<le> 0xDFFF then Inr (Some (u2, rest)) else Inr None)
          else Inr None
      | _ \<Rightarrow> Inr None)"

text \<open>The character that a one-letter escape stands for (the table \<open>BACKSLASH\<close>).\<close>

definition unescape :: "nat \<Rightarrow> nat option" where
  "unescape c =
     (if c = 34 then Some 34
      else if c = 92 then Some 92
      else if c = 47 then Some 47
      else if c = 98 then Some 8
      else if c = 102 then Some 12
      else if c = 110 then Some 10
      else if c = 114 then Some 13
      else if c = 116 then Some 9
      else None)"

text \<open>
  What stands after a backslash inside a string: the code point it denotes and the text
  after the escape.
\<close>

definition read_escape :: "str \<Rightarrow> load_failure + nat \<times> str" where
  "read_escape s =
     (case s of
        [] \<Rightarrow> Inl JSONDecodeError
      | e # s' \<Rightarrow>
          if e = 117 then
            and_then (read_hex4 s') (\<lambda>(u, rest).
              if 0xD800 \<le> u \<and> u \<le> 0xDBFF then
                and_then (read_low rest) (\<lambda>low.
                  case low of
                    None \<Rightarrow> Inr (u, rest)
                  | Some (u2, rest2) \<Rightarrow>
                      Inr (0x10000 + (u - 0xD800) * 1024 + (u2 - 0xDC00), rest2))
              else Inr (u, rest))
          else
            (case unescape e of None \<Rightarrow> Inl Unmodelled | Some ch \<Rightarrow> Inr (ch, s')))"

definition consed :: "nat \<Rightarrow> load_failure + str \<times> str \<Rightarrow> load_failure + str \<times> str" where
  "consed c res = (case res of Inl err \<Rightarrow> Inl err | Inr (s, r) \<Rightarrow> Inr (c # s, r))"

text \<open>Every escape takes at least one character.\<close>

lemma read_hex4_length: "read_hex4 s = Inr (u, r) \<Longrightarrow> length r < length s"
  by (auto simp: read_hex4_def split: list.splits option.splits)

lemma read_low_length: "read_low s = Inr (Some (u, r)) \<Longrightarrow> length r < length s"
  by (auto simp: read_low_def and_then_def split: list.splits sum.splits if_splits
      dest!: read_hex4_length)

lemma read_escape_length: "read_escape s = Inr (c, r) \<Longrightarrow> length r < length s"
proof (cases s)
  case Nil
  assume "read_escape s = Inr (c, r)"
  with Nil show ?thesis by (simp add: read_escape_def)
next
  case (Cons e s')
  assume a: "read_escape s = Inr (c, r)"
  show ?thesis
  proof (cases "e = 117")
    case False
    with a Cons show ?thesis
      by (auto simp: read_escape_def split: option.splits)
  next
    case True
    with a Cons obtain u rest where h: "read_hex4 s' = Inr (u, rest)"
      by (auto simp: read_escape_def and_then_def split: sum.splits)
    then have l: "length rest < length s'" by (rule read_hex4_length)
    from a Cons True h consider "r = rest"
      | u2 where "read_low rest = Inr (Some (u2, r))"
      by (auto simp: read_escape_def and_then_def split: sum.splits if_splits option.splits)
    then show ?thesis
    proof cases
      case 1
      with l Cons show ?thesis by simp
    next
      case 2
      then have "length r < length rest" by (rule read_low_length)
      with l Cons show ?thesis by simp
    qed
  qed
qed

text \<open>
  \<open>scanstring\<close>: the text after the opening quote gives the decoded string and the
  text after the closing quote.
\<close>

function scan_string :: "str \<Rightarrow> load_failure + str \<times> str" where
  "scan_string [] = Inl JSONDecodeError"
| "scan_string (c # cs) =
     (if c = 34 then Inr ([], cs)
      else if c = 92 then
        (case read_escape cs of
           Inl err \<Rightarrow> Inl err
         | Inr (ch, rest) \<Rightarrow> consed ch (scan_string rest))
      else if c < 32 then Inl Unmodelled
      else consed c (scan_string cs))"
  by pat_completeness auto
termination
proof (relation "measure length", goal_cases)
  case 1
  show ?case by simp
next
  case (2 c cs x2 ch rest)
  then have "read_escape cs = Inr (ch, rest)" by simp
  then have "length rest < length cs" by (rule read_escape_length)
  then show ?case by simp
next
  case (3 c cs)
  show ?case by simp
qed

declare scan_string.simps [simp del]

text \<open>The next character has to be the given one.\<close>

definition expect :: "nat \<Rightarrow> str \<Rightarrow> load_failure + str" where
  "expect c s =
     (case s of [] \<Rightarrow> Inl JSONDecodeError | x # r \<Rightarrow> if x = c then Inr r else Inl Unmodelled)"

definition parse_string :: "str \<Rightarrow> load_failure + str \<times> str" where
  "parse_string s = and_then (expect dquote s) scan_string"

text \<open>
  One member of an object: the key, a colon (58), the value; here the key is known.
\<close>

definition parse_member :: "str \<Rightarrow> str \<Rightarrow> load_failure + str \<times> str" where
  "parse_member key s =
     and_then (parse_string s) (\<lambda>(k, r1).
       if k \<noteq> key then Inl Unmodelled
       else and_then (expect 58 (skip_ws r1)) (\<lambda>r2. parse_string (skip_ws r2)))"

text \<open>
  \<open>JSONObject\<close>, for the four members of an entry, between the braces (123 and 125)
  and separated by commas (44).
\<close>

definition parse_entry :: "str \<Rightarrow> load_failure + entry \<times> str" where
  "parse_entry s =
     and_then (expect 123 s) (\<lambda>r0.
     and_then (parse_member (py ''command'') (skip_ws r0)) (\<lambda>(cmd, r1).
     and_then (expect 44 (skip_ws r1)) (\<lambda>r2.
     and_then (parse_member (py ''base_command'') (skip_ws r2)) (\<lambda>(base, r3).
     and_then (expect 44 (skip_ws r3)) (\<lambda>r4.
     and_then (parse_member (py ''timestamp'') (skip_ws r4)) (\<lambda>(ts, r5).
     and_then (expect 44 (skip_ws r5)) (\<lambda>r6.
     and_then (parse_member (py ''full_command'') (skip_ws r6)) (\<lambda>(full, r7).
     and_then (expect 125 (skip_ws r7)) (\<lambda>r8.
       Inr (\<lparr>command = cmd, base_command = base, timestamp = ts, full_command = full\<rparr>,
            r8))))))))))"

text \<open>
  Every parser consumes at least one character, which is what the loop over the array
  items needs to terminate.
\<close>

lemma skip_ws_length: "length (skip_ws s) \<le> length s"
  by (simp add: skip_ws_def length_dropWhile_le)

lemma expect_length: "expect c s = Inr r \<Longrightarrow> length r < length s"
  by (auto simp: expect_def split: list.splits if_splits)

lemma scan_string_length: "scan_string s = Inr (x, r) \<Longrightarrow> length r < length s"
proof (induction s arbitrary: x r rule: scan_string.induct)
  case 1
  then show ?case by (simp add: scan_string.simps)
next
  case (2 c cs)
  show ?case
  proof (cases "c = 34")
    case True
    with "2.prems" show ?thesis by (simp add: scan_string.simps)
  next
    case q: False
    show ?thesis
    proof (cases "c = 92")
      case True
      with "2.prems" q obtain ch rest y where
        e: "read_escape cs = Inr (ch, rest)" and s: "scan_string rest = Inr (y, r)"
        by (auto simp: scan_string.simps consed_def split: sum.splits)
      from "2.IH"(1) [OF q True e refl s] have "length r < length rest" .
      moreover from e have "length rest < length cs" by (rule read_escape_length)
      ultimately show ?thesis by simp
    next
      case False
      with "2.prems" q obtain y where
        c: "\<not> c < 32" and s: "scan_string cs = Inr (y, r)"
        by (auto simp: scan_string.simps consed_def split: sum.splits if_splits)
      from "2.IH"(2) [OF q False c s] show ?thesis by simp
    qed
  qed
qed

lemma parse_string_length: "parse_string s = Inr (x, r) \<Longrightarrow> length r < length s"
  by (auto simp: parse_string_def and_then_def split: sum.splits
      dest!: expect_length scan_string_length)

lemma parse_member_length: "parse_member k s = Inr (x, r) \<Longrightarrow> length r < length s"
proof -
  assume "parse_member k s = Inr (x, r)"
  then obtain k' r1 r2 where
    a: "parse_string s = Inr (k', r1)" and b: "expect 58 (skip_ws r1) = Inr r2"
    and c: "parse_string (skip_ws r2) = Inr (x, r)"
    by (auto simp: parse_member_def and_then_def split: sum.splits if_splits)
  from c have "length r < length (skip_ws r2)" by (rule parse_string_length)
  also have "\<dots> \<le> length r2" by (rule skip_ws_length)
  also from b have "\<dots> < length (skip_ws r1)" by (rule expect_length)
  also have "\<dots> \<le> length r1" by (rule skip_ws_length)
  also from a have "\<dots> < length s" by (rule parse_string_length)
  finally show ?thesis .
qed

lemma parse_member_skip_length:
  "parse_member k (skip_ws s) = Inr (x, r) \<Longrightarrow> length r < length s"
  using parse_member_length [of k "skip_ws s" x r] skip_ws_length [of s] by linarith

lemma expect_skip_length:
  "expect c (skip_ws s) = Inr r \<Longrightarrow> length r < length s"
  using expect_length [of c "skip_ws s" r] skip_ws_length [of s] by linarith

lemma parse_entry_length: "parse_entry s = Inr (e, r) \<Longrightarrow> length r < length s"
proof -
  assume "parse_entry s = Inr (e, r)"
  then obtain r0 r1 r2 r3 r4 r5 r6 r7 cmd base ts full where
    "expect 123 s = Inr r0"
    "parse_member (py ''command'') (skip_ws r0) = Inr (cmd, r1)"
    "expect 44 (skip_ws r1) = Inr r2"
    "parse_member (py ''base_command'') (skip_ws r2) = Inr (base, r3)"
    "expect 44 (skip_ws r3) = Inr r4"
    "parse_member (py ''timestamp'') (skip_ws r4) = Inr (ts, r5)"
    "expect 44 (skip_ws r5) = Inr r6"
    "parse_member (py ''full_command'') (skip_ws r6) = Inr (full, r7)"
    "expect 125 (skip_ws r7) = Inr r"
    by (auto simp: parse_entry_def and_then_def split: sum.splits)
  then have "length r0 < length s" "length r1 < length r0" "length r2 < length r1"
    "length r3 < length r2" "length r4 < length r3" "length r5 < length r4"
    "length r6 < length r5" "length r7 < length r6" "length r < length r7"
    by (auto dest: expect_length parse_member_skip_length expect_skip_length)
  then show ?thesis by linarith
qed

text \<open>
  \<open>JSONArray\<close> after its first item has been found to be there: items separated by
  commas, up to the closing bracket (93); a comma has to be followed by another item.
\<close>

function parse_entries :: "str \<Rightarrow> load_failure + entry list \<times> str" where
  "parse_entries s =
     (case parse_entry s of
        Inl err \<Rightarrow> Inl err
      | Inr (e, r) \<Rightarrow>
          (case skip_ws r of
             [] \<Rightarrow> Inl JSONDecodeError
           | c # r' \<Rightarrow>
               if c = 44 then
                 (case parse_entries (skip_ws r') of
                    Inl err \<Rightarrow> Inl err
                  | Inr (es, r'') \<Rightarrow> Inr (e # es, r''))
               else if c = 93 then Inr ([e], r')
               else Inl Unmodelled))"
  by pat_completeness auto
termination
proof (relation "measure length", goal_cases)
  case 1
  show ?case by simp
next
  case (2 s x2 e r c r')
  then have "parse_entry s = Inr (e, r)" by simp
  then have "length r < length s" by (rule parse_entry_length)
  moreover have "length (skip_ws r) \<le> length r" by (rule skip_ws_length)
  moreover from 2 have "length r' < length (skip_ws r)" by simp
  moreover have "length (skip_ws r') \<le> length r'" by (rule skip_ws_length)
  ultimately show ?case by simp
qed

declare parse_entries.simps [simp del]

text \<open>
  \<open>json.loads\<close>: the document is an array (from 91 to 93), empty or not, and only
  whitespace may follow it.
\<close>

definition json_load :: "str \<Rightarrow> load_failure + entry list" where
  "json_load text =
     (case skip_ws text of
        [] \<Rightarrow> Inl JSONDecodeError
      | c # r \<Rightarrow>
          if c = 91 then
            (case skip_ws r of
               [] \<Rightarrow> Inl JSONDecodeError
             | c' # r' \<Rightarrow>
                 if c' = 93 then (if skip_ws r' = [] then Inr [] else Inl Unmodelled)
                 else
                   (case parse_entries (skip_ws r) of
                      Inl err \<Rightarrow> Inl err
                    | Inr (es, rest) \<Rightarrow> if skip_ws rest = [] then Inr es else Inl Unmodelled))
          else Inl Unmodelled)"

text \<open>
  \<open>load_commands\<close>: the list in memory becomes what the file holds, the empty list
  when there is no file.
\<close>

definition load_commands :: "tracker \<Rightarrow> load_failure + tracker" where
  "load_commands t =
     (case commands_file t of
        None \<Rightarrow> Inr (t\<lparr>commands := []\<rparr>)
      | Some text \<Rightarrow>
          (case json_load text of
             Inl err \<Rightarrow> Inl err
           | Inr es \<Rightarrow> Inr (t\<lparr>commands := es\<rparr>)))"

section \<open>Dicts and counters\<close>

text \<open>
  A Python dict keeps its keys in insertion order, and the displays sort its items
  with a stable sort, so a dict is an association list with distinct keys:
  \<open>dict_set\<close> is \<open>d[k] = v\<close> (a new key goes to the end, a known key keeps its place),
  \<open>map_of\<close> is the lookup.
\<close>

fun dict_set :: "('k \<times> 'v) list \<Rightarrow> 'k \<Rightarrow> 'v \<Rightarrow> ('k \<times> 'v) list" where
  "dict_set [] k v = [(k, v)]"
| "dict_set ((k', v') # d) k v =
     (if k' = k then (k', v) # d else (k', v') # dict_set d k v)"

text \<open>\<open>Counter(keys)\<close>: each key with its number of occurrences.\<close>

definition counter_add :: "('k \<times> nat) list \<Rightarrow> 'k \<Rightarrow> ('k \<times> nat) list" where
  "counter_add d k = dict_set d k (case map_of d k of None \<Rightarrow> 1 | Some n \<Rightarrow> n + 1)"

definition Counter :: "'k list \<Rightarrow> ('k \<times> nat) list" where
  "Counter ks = foldl counter_add [] ks"

text \<open>
  \<open>sorted(d.items(), key=lambda x: x[1], reverse=True)\<close>: descending by the second
  component; the sort is stable, also with \<open>reverse=True\<close>, so items with equal keys
  keep their order.
\<close>

definition sorted_desc :: "('a \<Rightarrow> nat) \<Rightarrow> 'a list \<Rightarrow> 'a list" where
  "sorted_desc f xs = sort_key (\<lambda>x. - int (f x)) xs"

section \<open>Statistics\<close>

datatype py_error = ValueError | OverflowError | TypeError

text \<open>
  A \<open>datetime\<close> is naive or aware. \<open>Naive n\<close> has its fields \<open>n\<close> microseconds
  after those of \<open>datetime.min\<close> (0001-01-01T00:00:00); \<open>datetime.max\<close> is the last
  microsecond of the year 9999, 3652059 days later. \<open>Aware n off\<close> has such fields
  and, in addition, a UTC offset of \<open>off\<close> microseconds, so it denotes the instant
  \<open>n - off\<close>. Two naive values compare by their fields, two aware values by their
  instants, and ordering a naive against an aware value raises \<open>TypeError\<close>.
\<close>

datatype datetime = Naive int | Aware int int

fun datetime_ge :: "datetime \<Rightarrow> datetime \<Rightarrow> py_error + bool" where
  "datetime_ge (Naive a) (Naive b) = Inr (a \<ge> b)"
| "datetime_ge (Aware a oa) (Aware b ob) = Inr (a - oa \<ge> b - ob)"
| "datetime_ge (Naive a) (Aware b ob) = Inl TypeError"
| "datetime_ge (Aware a oa) (Naive b) = Inl TypeError"

fun datetime_gt :: "datetime \<Rightarrow> datetime \<Rightarrow> py_error + bool" where
  "datetime_gt (Naive a) (Naive b) = Inr (a > b)"
| "datetime_gt (Aware a oa) (Aware b ob) = Inr (a - oa > b - ob)"
| "datetime_gt (Naive a) (Aware b ob) = Inl TypeError"
| "datetime_gt (Aware a oa) (Naive b) = Inl TypeError"

text \<open>
  \<open>timedelta(days=d)\<close> raises \<open>OverflowError\<close> beyond 999999999 days either way, and
  so does a subtraction that leaves the range of \<open>datetime\<close>. \<open>datetime.now()\<close> is
  naive, so the subtraction is on the fields.
\<close>

definition us_per_day :: int where
  "us_per_day = 86400 * 1000000"

definition timedelta_days :: "int \<Rightarrow> py_error + int" where
  "timedelta_days d = (if \<bar>d\<bar> > 999999999 then Inl OverflowError else Inr (d * us_per_day))"

definition datetime_sub :: "int \<Rightarrow> int \<Rightarrow> py_error + int" where
  "datetime_sub t delta =
     (let r = t - delta
      in if 0 \<le> r \<and> r < 3652059 * us_per_day then Inr r else Inl OverflowError)"

text \<open>
  The standard library's \<open>datetime.fromisoformat\<close> and \<open>datetime.isoformat\<close> are
  parameters of the model: \<open>fromisoformat s\<close> is the datetime that \<open>s\<close> denotes, naive
  when \<open>s\<close> has no UTC offset (as the timestamps that \<open>log_command\<close> writes) and
  aware when it has one, \<open>None\<close> where Python raises \<open>ValueError\<close>.
\<close>

record stats =
  total_commands :: nat
  unique_base_commands :: nat
  base_command_counts :: "(str \<times> nat) list"
  full_command_counts :: "(str \<times> nat) list"
  last_used :: "(str \<times> str) list"
  period_days :: "int option"

text \<open>
  The list comprehension of the filter: in the order of the list, every timestamp is
  parsed and compared with the cutoff, which is naive.
\<close>

fun filter_since :: "(str \<Rightarrow> datetime option) \<Rightarrow> int \<Rightarrow> entry list \<Rightarrow> py_error + entry list" where
  "filter_since fromisoformat cutoff [] = Inr []"
| "filter_since fromisoformat cutoff (c # cs) =
     (case fromisoformat (timestamp c) of
        None \<Rightarrow> Inl ValueError
      | Some ts \<Rightarrow>
          (case datetime_ge ts (Naive cutoff) of
             Inl err \<Rightarrow> Inl err
           | Inr keep \<Rightarrow>
               (case filter_since fromisoformat cutoff cs of
                  Inl err \<Rightarrow> Inl err
                | Inr kept \<Rightarrow> Inr (if keep then c # kept else kept))))"

text \<open>
  The loop over the last-used times, threading the dict \<open>last_used\<close>: a base command
  not yet in the dict takes the timestamp; one that is there takes it when the timestamp
  is greater than the one it has.
\<close>

fun last_used_loop ::
  "(str \<Rightarrow> datetime option) \<Rightarrow> (str \<times> datetime) list \<Rightarrow> entry list
   \<Rightarrow> py_error + (str \<times> datetime) list" where
  "last_used_loop fromisoformat lu [] = Inr lu"
| "last_used_loop fromisoformat lu (c # cs) =
     (case fromisoformat (timestamp c) of
        None \<Rightarrow> Inl ValueError
      | Some ts \<Rightarrow>
          (case map_of lu (base_command c) of
             None \<Rightarrow> last_used_loop fromisoformat (dict_set lu (base_command c) ts) cs
           | Some old \<Rightarrow>
               (case datetime_gt ts old of
                  Inl err \<Rightarrow> Inl err
                | Inr newer \<Rightarrow>
                    last_used_loop fromisoformat
                      (if newer then dict_set lu (base_command c) ts else lu) cs)))"

text \<open>
  \<open>get_stats\<close>; \<open>now\<close> is the reading of \<open>datetime.now()\<close>. \<open>if days:\<close> is false for
  \<open>None\<close> and for \<open>0\<close>.
\<close>

definition commands_to_analyze ::
  "(str \<Rightarrow> datetime option) \<Rightarrow> int \<Rightarrow> int option \<Rightarrow> tracker \<Rightarrow> py_error + entry list" where
  "commands_to_analyze fromisoformat now days t =
     (case days of
        None \<Rightarrow> Inr (commands t)
      | Some d \<Rightarrow>
          if d = 0 then Inr (commands t)
          else
            (case timedelta_days d of
               Inl err \<Rightarrow> Inl err
             | Inr delta \<Rightarrow>
                 (case datetime_sub now delta of
                    Inl err \<Rightarrow> Inl err
                  | Inr cutoff \<Rightarrow> filter_since fromisoformat cutoff (commands t))))"

definition get_stats ::
  "(str \<Rightarrow> datetime option) \<Rightarrow> (datetime \<Rightarrow> str) \<Rightarrow> int \<Rightarrow> int option \<Rightarrow> tracker
   \<Rightarrow> py_error + stats" where
  "get_stats fromisoformat isoformat now days t =
     (case commands_to_analyze fromisoformat now days t of
        Inl err \<Rightarrow> Inl err
      | Inr cs \<Rightarrow>
          let base_counts = Counter (map base_command cs);
              full_counts = Counter (map command cs)
          in (case last_used_loop fromisoformat [] cs of
                Inl err \<Rightarrow> Inl err
              | Inr lu \<Rightarrow>
                  Inr \<lparr>total_commands = length cs,
                       unique_base_commands = length base_counts,
                       base_command_counts = base_counts,
                       full_command_counts = full_counts,
                       last_used = map (\<lambda>(k, v). (k, isoformat v)) lu,
                       period_days = days\<rparr>))"

section \<open>Search\<close>

text \<open>
  The test of the list comprehension: the lower-cased query occurs in the lower-cased
  command or in the lower-cased base command.
\<close>

definition matches :: "(str \<Rightarrow> str) \<Rightarrow> str \<Rightarrow> entry \<Rightarrow> bool" where
  "matches unicode_lower query c =
     (contains (lower unicode_lower (command c)) (lower unicode_lower query)
      \<or> contains (lower unicode_lower (base_command c)) (lower unicode_lower query))"

definition matching :: "(str \<Rightarrow> str) \<Rightarrow> str \<Rightarrow> tracker \<Rightarrow> entry list" where
  "matching unicode_lower query t = filter (matches unicode_lower query) (commands t)"

text \<open>The dict \<open>grouped\<close>: base command to the list of its matching entries.\<close>

definition group_add :: "(str \<times> entry list) list \<Rightarrow> entry \<Rightarrow> (str \<times> entry list) list" where
  "group_add g c =
     (case map_of g (base_command c) of
        None \<Rightarrow> dict_set g (base_command c) [c]
      | Some cs \<Rightarrow> dict_set g (base_command c) (cs @ [c]))"

definition grouped :: "entry list \<Rightarrow> (str \<times> entry list) list" where
  "grouped ms = foldl group_add [] ms"

text \<open>
  What \<open>search_commands\<close> prints for one group: the header with the number of
  occurrences, the first five of the distinct commands in ascending order, and the line
  counting the rest when there are more.
\<close>

definition unique_commands :: "entry list \<Rightarrow> str list" where
  "unique_commands cs = sort (remdups (map command cs))"

definition group_lines :: "str \<times> entry list \<Rightarrow> str list" where
  "group_lines g =
     (let base = fst g; cs = snd g; unique = unique_commands cs
      in [newline # base @ py '' ('' @ str_nat (length cs) @ py '' occurrences):'']
         @ map (\<lambda>full. py ''  '' @ full) (take 5 unique)
         @ (if length unique > 5
            then [py ''  ... and '' @ str_nat (length unique - 5) @ py '' more''] else []))"

text \<open>
  \<open>search_commands\<close>: the arguments of its \<open>print\<close> calls, in order. 39 is the
  single quote.
\<close>

definition search_commands :: "(str \<Rightarrow> str) \<Rightarrow> str \<Rightarrow> tracker \<Rightarrow> str list" where
  "search_commands unicode_lower query t =
     (let ms = matching unicode_lower query t
      in if ms = [] then [py ''No commands found matching '' @ 39 # query @ [39]]
         else
           [newline # py ''Commands matching '' @ 39 # query @ 39 # py '':'',
            replicate 70 61]
           @ concat (map group_lines (sorted_desc (\<lambda>g. length (snd g)) (grouped ms))))"

section \<open>CSV export\<close>

text \<open>
  The \<open>csv\<close> branch of \<open>export_stats\<close>, over the statistics of all time. The
  percentage is a floating-point number formatted by \<open>f"{percentage:.2f}"\<close>; that
  formatting is the parameter \<open>format_2f\<close>, given the count and the total. A base
  command missing from \<open>last_used\<close> gives the empty string.
\<close>

definition csv_row :: "(nat \<Rightarrow> nat \<Rightarrow> str) \<Rightarrow> stats \<Rightarrow> str \<times> nat \<Rightarrow> str" where
  "csv_row format_2f st item =
     (let cmd = fst item; count = snd item;
          percentage = (if total_commands st > 0
                        then format_2f count (total_commands st) else py ''0.00'');
          last = (case map_of (last_used st) cmd of None \<Rightarrow> [] | Some l \<Rightarrow> l)
      in cmd @ py '','' @ str_nat count @ py '','' @ percentage @ py '','' @ last)"

definition csv_lines :: "(nat \<Rightarrow> nat \<Rightarrow> str) \<Rightarrow> stats \<Rightarrow> str list" where
  "csv_lines format_2f st =
     py ''Command,Count,Percentage,Last Used''
     # map (csv_row format_2f st) (sorted_desc snd (base_command_counts st))"

fun join_lines :: "str list \<Rightarrow> str" where
  "join_lines [] = []"
| "join_lines [l] = l"
| "join_lines (l # ls) = l @ newline # join_lines ls"

definition export_stats_csv ::
  "(str \<Rightarrow> datetime option) \<Rightarrow> (datetime \<Rightarrow> str) \<Rightarrow> (nat \<Rightarrow> nat \<Rightarrow> str) \<Rightarrow> int \<Rightarrow> tracker
   \<Rightarrow> py_error + str" where
  "export_stats_csv fromisoformat isoformat format_2f now t =
     (case get_stats fromisoformat isoformat now None t of
        Inl err \<Rightarrow> Inl err
      | Inr st \<Rightarrow> Inr (join_lines (csv_lines format_2f st)))"

section \<open>Derived notions\<close>

text \<open>
  The entry that \<open>log_command\<close> appends for a line that is not blank (lemma
  \<open>log_command_commands\<close> below): the base command as the first run of non-whitespace
  characters of the command.
\<close>

definition entry_of :: "str \<Rightarrow> str \<Rightarrow> entry" where
  "entry_of now_iso raw_line =
     (let cmd = strip (sub_history_number (strip raw_line))
      in \<lparr>command = cmd,
          base_command = takeWhile (\<lambda>c. \<not> isspace c) cmd,
          timestamp = now_iso,
          full_command = strip raw_line\<rparr>)"

text \<open>
  A run of \<open>log_command\<close> calls on one tracker, one call for each pair of a clock
  reading and a line, in order.
\<close>

definition log_commands :: "(str \<times> str) list \<Rightarrow> tracker \<Rightarrow> tracker" where
  "log_commands inputs t = fold (\<lambda>(now_iso, raw_line). log_command now_iso raw_line) inputs t"

text \<open>
  The command as the specification words it: the history number (digits followed by
  whitespace, with the whitespace before them) stripped from the raw line, then the
  whitespace around the remainder.
\<close>

definition spec_command :: "str \<Rightarrow> str" where
  "spec_command raw_line = strip (sub_history_number raw_line)"

text \<open>
  The naive times at which a base command was used: the parsed timestamps of its
  entries.
\<close>

definition used_times :: "(str \<Rightarrow> datetime option) \<Rightarrow> entry list \<Rightarrow> str \<Rightarrow> int set" where
  "used_times fromisoformat cs b =
     {n. \<exists>c\<in>set cs. base_command c = b \<and> fromisoformat (timestamp c) = Some (Naive n)}"

text \<open>
  No timestamp of the entries is aware: each one is naive or does not parse. The
  timestamps that \<open>log_command\<close> writes are those of \<open>datetime.now()\<close>, naive.
\<close>

definition no_aware :: "(str \<Rightarrow> datetime option) \<Rightarrow> entry list \<Rightarrow> bool" where
  "no_aware fromisoformat cs =
     list_all (\<lambda>c. case fromisoformat (timestamp c) of
                     Some (Aware n off) \<Rightarrow> False | _ \<Rightarrow> True) cs"

text \<open>Every timestamp of the entries parses, to a naive datetime.\<close>

definition all_naive :: "(str \<Rightarrow> datetime option) \<Rightarrow> entry list \<Rightarrow> bool" where
  "all_naive fromisoformat cs =
     list_all (\<lambda>c. case fromisoformat (timestamp c) of
                     Some (Naive n) \<Rightarrow> True | _ \<Rightarrow> False) cs"

text \<open>
  Python's \<open>==\<close> on the dict that \<open>get_stats\<close> returns: the numbers are equal and
  each inner dict has the same keys with the same values, whatever the order of
  insertion. Two outcomes are the same when both raise the same error or both return
  equal statistics.
\<close>

definition stats_equal :: "stats \<Rightarrow> stats \<Rightarrow> bool" where
  "stats_equal s s' =
     (total_commands s = total_commands s'
      \<and> unique_base_commands s = unique_base_commands s'
      \<and> map_of (base_command_counts s) = map_of (base_command_counts s')
      \<and> map_of (full_command_counts s) = map_of (full_command_counts s')
      \<and> map_of (last_used s) = map_of (last_used s')
      \<and> period_days s = period_days s')"

definition same_result :: "py_error + stats \<Rightarrow> py_error + stats \<Rightarrow> bool" where
  "same_result r r' =
     (case (r, r') of
        (Inl e, Inl e') \<Rightarrow> e = e'
      | (Inr s, Inr s') \<Rightarrow> stats_equal s s'
      | _ \<Rightarrow> False)"

text \<open>
  Strings that the JSON text gives back: the code points are those of a \<open>str\<close>, and
  no high surrogate stands right before a low surrogate. A \<open>str\<close> decoded from UTF-8
  text or from the command line has no such pair.
\<close>

fun no_surrogate_pair :: "str \<Rightarrow> bool" where
  "no_surrogate_pair [] = True"
| "no_surrogate_pair [c] = True"
| "no_surrogate_pair (c # d # s) =
     (\<not> (0xD800 \<le> c \<and> c \<le> 0xDBFF \<and> 0xDC00 \<le> d \<and> d \<le> 0xDFFF) \<and> no_surrogate_pair (d # s))"

definition valid_str :: "str \<Rightarrow> bool" where
  "valid_str s = (list_all (\<lambda>c. c < 0x110000) s \<and> no_surrogate_pair s)"

definition valid_entry :: "entry \<Rightarrow> bool" where
  "valid_entry e =
     (valid_str (command e) \<and> valid_str (base_command e)
      \<and> valid_str (timestamp e) \<and> valid_str (full_command e))"

section \<open>Stripping\<close>

lemma isdigit_not_isspace: "isdigit c \<Longrightarrow> \<not> isspace c"
  unfolding isdigit_def decimal_ranges_def
  by (simp only: list_ex_iff list.set ball_simps bex_simps fst_conv snd_conv)
     (elim disjE conjE; simp add: isspace_def)

lemma strip_Nil_iff: "strip s = [] \<longleftrightarrow> (\<forall>c\<in>set s. isspace c)"
proof
  assume "strip s = []"
  then have a: "\<forall>c\<in>set (dropWhile isspace s). isspace c"
    by (simp add: strip_def dropWhile_eq_Nil_conv)
  have "dropWhile isspace s = []"
  proof (cases "dropWhile isspace s")
    case (Cons c cs)
    then have "\<not> isspace c" by (simp add: dropWhile_eq_Cons_conv)
    with a Cons show ?thesis by simp
  qed simp
  then show "\<forall>c\<in>set s. isspace c" by (simp add: dropWhile_eq_Nil_conv)
next
  assume "\<forall>c\<in>set s. isspace c"
  then show "strip s = []" by (auto simp: strip_def dest: set_dropWhileD)
qed

lemma strip_decomp:
  "\<exists>w1 w2. s = w1 @ strip s @ w2 \<and> (\<forall>c\<in>set w1. isspace c) \<and> (\<forall>c\<in>set w2. isspace c)"
proof -
  let ?d = "dropWhile isspace s"
  have "s = takeWhile isspace s @ ?d" by simp
  moreover have "rev ?d = takeWhile isspace (rev ?d) @ dropWhile isspace (rev ?d)" by simp
  then have "?d = strip s @ rev (takeWhile isspace (rev ?d))"
    unfolding strip_def by (metis rev_append rev_rev_ident)
  moreover have "\<forall>c\<in>set (takeWhile isspace s). isspace c"
    by (auto dest: set_takeWhileD)
  moreover have "\<forall>c\<in>set (rev (takeWhile isspace (rev ?d))). isspace c"
    by (auto dest: set_takeWhileD)
  ultimately show ?thesis by metis
qed

lemma strip_hd: "strip s \<noteq> [] \<Longrightarrow> \<not> isspace (hd (strip s))"
proof -
  assume ne: "strip s \<noteq> []"
  let ?d = "dropWhile isspace s"
  from ne have d: "?d \<noteq> []" unfolding strip_def by fastforce
  then have hd: "\<not> isspace (hd ?d)" by (rule hd_dropWhile)
  have "hd ?d \<in> set (rev ?d)" using d by simp
  then have "last (dropWhile isspace (rev ?d)) = last (rev ?d)"
    using hd by (rule dropWhile_last)
  moreover have "hd (strip s) = last (dropWhile isspace (rev ?d))"
    using ne by (simp add: strip_def hd_rev)
  ultimately show ?thesis using hd d by (simp add: last_rev)
qed

lemma strip_last: "strip s \<noteq> [] \<Longrightarrow> \<not> isspace (last (strip s))"
proof -
  assume ne: "strip s \<noteq> []"
  then have "dropWhile isspace (rev (dropWhile isspace s)) \<noteq> []"
    by (simp add: strip_def)
  then have "\<not> isspace (hd (dropWhile isspace (rev (dropWhile isspace s))))"
    by (rule hd_dropWhile)
  then show ?thesis using ne by (simp add: strip_def last_rev)
qed

lemma strip_id: "s = [] \<or> (\<not> isspace (hd s) \<and> \<not> isspace (last s)) \<Longrightarrow> strip s = s"
proof (cases "s = []")
  case True
  then show ?thesis by (simp add: strip_def)
next
  case False
  assume "s = [] \<or> (\<not> isspace (hd s) \<and> \<not> isspace (last s))"
  with False have h: "\<not> isspace (hd s)" and l: "\<not> isspace (last s)" by auto
  from h have "dropWhile isspace s = s" by (simp add: dropWhile_eq_self_iff)
  moreover from l False have "dropWhile isspace (rev s) = rev s"
    by (simp add: dropWhile_eq_self_iff hd_rev)
  ultimately show ?thesis by (simp add: strip_def)
qed

lemma strip_strip: "strip (strip s) = strip s"
  by (rule strip_id) (use strip_hd strip_last in blast)

lemma strip_eq_self_iff:
  "strip s = s \<longleftrightarrow> s = [] \<or> (\<not> isspace (hd s) \<and> \<not> isspace (last s))"
  by (metis strip_id strip_hd strip_last)

lemma strip_append_space: "\<forall>c\<in>set w. isspace c \<Longrightarrow> strip (s @ w) = strip s"
proof (cases "\<forall>c\<in>set s. isspace c")
  case True
  assume "\<forall>c\<in>set w. isspace c"
  with True have "strip (s @ w) = []" by (subst strip_Nil_iff) auto
  moreover from True have "strip s = []" by (simp add: strip_Nil_iff)
  ultimately show ?thesis by simp
next
  case False
  assume w: "\<forall>c\<in>set w. isspace c"
  from False obtain x where "x \<in> set s" "\<not> isspace x" by blast
  then have "dropWhile isspace (s @ w) = dropWhile isspace s @ w"
    by (rule dropWhile_append1)
  moreover have "dropWhile isspace (rev w @ rev (dropWhile isspace s))
      = dropWhile isspace (rev (dropWhile isspace s))"
    using w by (intro dropWhile_append2) simp
  ultimately show ?thesis by (simp add: strip_def)
qed

lemma strip_prepend_space: "\<forall>c\<in>set w. isspace c \<Longrightarrow> strip (w @ s) = strip s"
proof -
  assume "\<forall>c\<in>set w. isspace c"
  then have "dropWhile isspace (w @ s) = dropWhile isspace s"
    by (intro dropWhile_append2) simp
  then show ?thesis by (simp add: strip_def)
qed

section \<open>Logging a line\<close>

lemma sub_history_number_Nil [simp]: "sub_history_number [] = []"
  by (simp add: sub_history_number_def)

lemma command_empty_iff:
  "strip (sub_history_number (strip raw)) = [] \<longleftrightarrow> (\<forall>c\<in>set raw. isspace c)"
proof
  assume "\<forall>c\<in>set raw. isspace c"
  then have "strip raw = []" by (simp add: strip_Nil_iff)
  moreover have "strip [] = []" by (simp add: strip_def)
  ultimately show "strip (sub_history_number (strip raw)) = []"
    by simp
next
  assume e: "strip (sub_history_number (strip raw)) = []"
  show "\<forall>c\<in>set raw. isspace c"
  proof (rule ccontr)
    assume "\<not> (\<forall>c\<in>set raw. isspace c)"
    then have ne: "strip raw \<noteq> []" by (simp add: strip_Nil_iff)
    let ?b = "strip raw"
    let ?s2 = "dropWhile isdigit ?b"
    have self: "dropWhile isspace ?b = ?b"
      using strip_hd [OF ne] by (simp add: dropWhile_eq_self_iff)
    show False
    proof (cases "takeWhile isdigit ?b \<noteq> [] \<and> takeWhile isspace ?s2 \<noteq> []")
      case True
      then have s2: "?s2 \<noteq> []" by (metis takeWhile.simps(1))
      have "?b = takeWhile isdigit ?b @ ?s2" by simp
      then have "last ?b = last ?s2" using s2 by (metis last_appendR)
      then have nl: "\<not> isspace (last ?s2)" using strip_last [OF ne] by simp
      have "last ?s2 \<in> set ?s2" using s2 by simp
      then have "\<exists>c\<in>set (dropWhile isspace ?s2). \<not> isspace c"
        using nl s2 by (metis dropWhile_eq_Nil_conv dropWhile_last last_in_set)
      moreover have "sub_history_number ?b = dropWhile isspace ?s2"
        using True self by (simp add: sub_history_number_def)
      ultimately show False using e by (simp add: strip_Nil_iff)
    next
      case False
      then have "sub_history_number ?b = ?b"
        using self by (auto simp: sub_history_number_def)
      with e ne show False by (simp add: strip_strip)
    qed
  qed
qed

lemma split_Cons:
  assumes "s \<noteq> []" "\<not> isspace (hd s)"
  shows "split s = takeWhile (\<lambda>c. \<not> isspace c) s # split (dropWhile (\<lambda>c. \<not> isspace c) s)"
proof -
  have "dropWhile isspace s = s" using assms by (simp add: dropWhile_eq_self_iff)
  then show ?thesis using assms(1) by (subst split.simps) (simp add: Let_def)
qed

lemma log_command_blank:
  "\<forall>c\<in>set raw. isspace c \<Longrightarrow> log_command now raw t = t"
  using command_empty_iff [of raw] by (simp add: log_command_def Let_def)

lemma log_command_commands:
  assumes "\<exists>c\<in>set raw. \<not> isspace c"
  shows "commands (log_command now raw t) =
     drop (length (commands t) + 1 - 10000) (commands t @ [entry_of now raw])"
proof -
  let ?cmd = "strip (sub_history_number (strip raw))"
  from assms have ne: "?cmd \<noteq> []" using command_empty_iff [of raw] by blast
  then have "split ?cmd = takeWhile (\<lambda>c. \<not> isspace c) ?cmd # split (dropWhile (\<lambda>c. \<not> isspace c) ?cmd)"
    using strip_hd [of "sub_history_number (strip raw)"] by (intro split_Cons) auto
  then show ?thesis using ne
    by (simp add: log_command_def Let_def entry_of_def save_commands_def)
qed

lemma log_command_file:
  assumes "\<exists>c\<in>set raw. \<not> isspace c"
  shows "commands_file (log_command now raw t) = Some (json_dump (commands (log_command now raw t)))"
  using assms command_empty_iff [of raw] by (auto simp add: log_command_def Let_def save_commands_def)

lemma drop_drop_append:
  "drop (length (drop (length xs - n) xs @ ys) - n) (drop (length xs - n) xs @ ys)
    = drop (length (xs @ ys) - n) (xs @ ys)"
  by (cases "length xs \<le> n") (auto simp: add.commute)

lemma log_commands_commands:
  assumes "\<forall>(now, raw)\<in>set inputs. \<exists>c\<in>set raw. \<not> isspace c" and "inputs \<noteq> []"
  shows "commands (log_commands inputs t) =
     (let every = commands t @ map (\<lambda>(now, raw). entry_of now raw) inputs
      in drop (length every - 10000) every)"
  using assms
proof (induction inputs arbitrary: t rule: rev_induct)
  case Nil
  then show ?case by simp
next
  case (snoc x xs)
  obtain now raw where x: "x = (now, raw)" by (cases x)
  from snoc.prems x have raw: "\<exists>c\<in>set raw. \<not> isspace c" by auto
  have step: "log_commands (xs @ [x]) t = log_command now raw (log_commands xs t)"
    by (simp add: log_commands_def x)
  show ?case
  proof (cases "xs = []")
    case True
    then have "log_commands xs t = t" by (simp add: log_commands_def)
    then show ?thesis using step raw x True by (simp add: log_command_commands Let_def)
  next
    case False
    with snoc have IH: "commands (log_commands xs t) =
       (let every = commands t @ map (\<lambda>(now, raw). entry_of now raw) xs
        in drop (length every - 10000) every)" by auto
    let ?E = "commands t @ map (\<lambda>(now, raw). entry_of now raw) xs"
    let ?e = "entry_of now raw"
    from IH have IH': "commands (log_commands xs t) = drop (length ?E - 10000) ?E"
      by (simp only: Let_def)
    have "commands (log_commands (xs @ [x]) t)
        = drop (length (commands (log_commands xs t) @ [?e]) - 10000)
            (commands (log_commands xs t) @ [?e])"
      unfolding step log_command_commands [OF raw] by simp
    also have "\<dots> = drop (length (?E @ [?e]) - 10000) (?E @ [?e])"
      unfolding IH' by (rule drop_drop_append)
    also have "?E @ [?e] = commands t @ map (\<lambda>(now, raw). entry_of now raw) (xs @ [x])"
      by (simp add: x)
    finally show ?thesis by (simp only: Let_def)
  qed
qed

lemma command_agrees_spec:
  assumes "\<exists>c\<in>set (strip raw). \<not> isdigit c"
  shows "strip (sub_history_number (strip raw)) = spec_command raw"
proof -
  let ?b = "strip raw"
  from assms obtain c where c: "c \<in> set ?b" "\<not> isdigit c" by blast
  then have ne: "?b \<noteq> []" by auto
  obtain w1 w2 where raw: "raw = w1 @ ?b @ w2"
    and w1: "\<forall>c\<in>set w1. isspace c" and w2: "\<forall>c\<in>set w2. isspace c"
    using strip_decomp [of raw] by blast
  let ?r = "dropWhile isdigit ?b"
  have r: "?r \<noteq> []" using c by (auto simp: dropWhile_eq_Nil_conv)
  have "?b = takeWhile isdigit ?b @ ?r" by simp
  then have "last ?r = last ?b" using r by (metis last_appendR)
  then have lr: "\<not> isspace (last ?r)" using strip_last [OF ne] by simp
  have self: "dropWhile isspace ?b = ?b"
    using strip_hd [OF ne] by (simp add: dropWhile_eq_self_iff)
  have "dropWhile isspace (w1 @ ?b @ w2) = dropWhile isspace (?b @ w2)"
    using w1 by (intro dropWhile_append2) simp
  also have "\<dots> = ?b @ w2"
    using strip_hd [OF ne] ne by (simp add: dropWhile_eq_self_iff)
  finally have s1: "dropWhile isspace raw = ?b @ w2" using raw by simp
  have tw: "takeWhile isdigit (?b @ w2) = takeWhile isdigit ?b"
    using c by (rule takeWhile_append1)
  have dw: "dropWhile isdigit (?b @ w2) = ?r @ w2"
    using c by (rule dropWhile_append1)
  have tws: "takeWhile isspace (?r @ w2) \<noteq> [] \<longleftrightarrow> takeWhile isspace ?r \<noteq> []"
    using r by (simp add: takeWhile_eq_Nil_iff)
  show ?thesis
  proof (cases "takeWhile isdigit ?b \<noteq> [] \<and> takeWhile isspace ?r \<noteq> []")
    case True
    have "last ?r \<in> set ?r" using r by simp
    then have "dropWhile isspace (?r @ w2) = dropWhile isspace ?r @ w2"
      using lr by (rule dropWhile_append1)
    then have "sub_history_number raw = dropWhile isspace ?r @ w2"
      using True tws by (simp add: sub_history_number_def s1 tw dw)
    moreover have "sub_history_number ?b = dropWhile isspace ?r"
      using True by (simp add: sub_history_number_def self)
    ultimately show ?thesis
      using w2 by (simp add: spec_command_def strip_append_space)
  next
    case False
    then have "sub_history_number raw = raw"
      using tws by (auto simp: sub_history_number_def s1 tw dw)
    moreover have "sub_history_number ?b = ?b"
      using False by (auto simp: sub_history_number_def self)
    ultimately show ?thesis
      by (simp add: spec_command_def strip_strip)
  qed
qed


section \<open>Claims about logging\<close>

text \<open>
  C1 (amended). For a line that is not blank, the entry stored last has as \<open>full_command\<close>
  the input line with the whitespace around it stripped; the history number stays. It is
  the line as received exactly when the line neither starts nor ends with whitespace.
\<close>

theorem log_command_full_command:
  assumes "\<exists>c\<in>set raw. \<not> isspace c"
  shows "commands (log_command now raw t) \<noteq> []
     \<and> full_command (last (commands (log_command now raw t))) = strip raw
     \<and> (full_command (last (commands (log_command now raw t))) = raw
          \<longleftrightarrow> \<not> isspace (hd raw) \<and> \<not> isspace (last raw))"
proof -
  have cs: "commands (log_command now raw t) =
      drop (length (commands t) + 1 - 10000) (commands t) @ [entry_of now raw]"
    using log_command_commands [OF assms, of now t] by simp
  then have l: "last (commands (log_command now raw t)) = entry_of now raw" by simp
  have fc: "full_command (entry_of now raw) = strip raw"
    by (simp add: entry_of_def Let_def)
  from assms have "raw \<noteq> []" by auto
  then have "strip raw = raw \<longleftrightarrow> \<not> isspace (hd raw) \<and> \<not> isspace (last raw)"
    by (simp add: strip_eq_self_iff)
  then show ?thesis using cs l fc by simp
qed

theorem log_command_full_command_witness:
  "(\<exists>c\<in>set (py ''42  ls -la''). \<not> isspace c)
   \<and> full_command (last (commands
        (log_command (py ''2024-05-01T10:00:00'') (py ''42  ls -la'')
           \<lparr>commands = [], commands_file = None\<rparr>)))
      = py ''42  ls -la''"
proof -
  have h: "\<exists>c\<in>set (py ''42  ls -la''). \<not> isspace c"
    by (simp add: py_def isspace_def)
  have s: "strip (py ''42  ls -la'') = py ''42  ls -la''"
    by code_simp
  from log_command_full_command [OF h] s h show ?thesis
    by (simp only: simp_thms)
qed

theorem log_command_full_command_counterexample:
  "full_command (last (commands
      (log_command (py ''2024-05-01T10:00:00'') (py '' 42  ls -la '')
         \<lparr>commands = [], commands_file = None\<rparr>)))
     = py ''42  ls -la''
   \<and> full_command (last (commands
      (log_command (py ''2024-05-01T10:00:00'') (py '' 42  ls -la '')
         \<lparr>commands = [], commands_file = None\<rparr>)))
     \<noteq> py '' 42  ls -la ''"
  by code_simp

text \<open>
  C4. When an append takes the list beyond 10000 entries, the store holds exactly the last
  10000 of the old entries followed by the new one, in their order. A run of appends
  that reaches the capacity leaves exactly the 10000 most recent entries; from the
  empty store, 10001 appends leave the last 10000.
\<close>

theorem log_command_retention:
  "((\<exists>c\<in>set raw. \<not> isspace c) \<and> 10000 \<le> length (commands t) \<longrightarrow>
      commands (log_command now raw t)
        = drop (length (commands t) + 1 - 10000) (commands t @ [entry_of now raw])
      \<and> length (commands (log_command now raw t)) = 10000)
   \<and> ((\<forall>(now, raw)\<in>set inputs. \<exists>c\<in>set raw. \<not> isspace c) \<and> inputs \<noteq> []
        \<and> 10000 \<le> length (commands t) + length inputs \<longrightarrow>
      commands (log_commands inputs t)
        = drop (length (commands t) + length inputs - 10000)
            (commands t @ map (\<lambda>(now, raw). entry_of now raw) inputs)
      \<and> length (commands (log_commands inputs t)) = 10000)"
proof (intro conjI impI)
  assume a: "(\<exists>c\<in>set raw. \<not> isspace c) \<and> 10000 \<le> length (commands t)"
  then show c: "commands (log_command now raw t)
        = drop (length (commands t) + 1 - 10000) (commands t @ [entry_of now raw])"
    by (simp add: log_command_commands)
  show "length (commands (log_command now raw t)) = 10000"
    unfolding c using a by simp
next
  assume a: "(\<forall>(now, raw)\<in>set inputs. \<exists>c\<in>set raw. \<not> isspace c) \<and> inputs \<noteq> []
        \<and> 10000 \<le> length (commands t) + length inputs"
  then show c: "commands (log_commands inputs t)
        = drop (length (commands t) + length inputs - 10000)
            (commands t @ map (\<lambda>(now, raw). entry_of now raw) inputs)"
    using log_commands_commands [of inputs t] by (simp add: Let_def)
  show "length (commands (log_commands inputs t)) = 10000"
    unfolding c using a by simp
qed

theorem log_command_retention_witness:
  "length (commands (log_command (py ''2024-05-01T10:00:00'') (py ''ls'')
       \<lparr>commands = replicate 10000 (entry_of (py ''2024-04-30T09:00:00'') (py ''pwd'')),
        commands_file = None\<rparr>)) = 10000
   \<and> length (commands (log_commands (replicate 10001 (py ''2024-05-01T10:00:00'', py ''ls''))
       \<lparr>commands = [], commands_file = None\<rparr>)) = 10000"
proof -
  let ?old = "\<lparr>commands = replicate 10000 (entry_of (py ''2024-04-30T09:00:00'') (py ''pwd'')),
        commands_file = None :: str option\<rparr>"
  let ?empty = "\<lparr>commands = [], commands_file = None :: str option\<rparr>"
  let ?inputs = "replicate 10001 (py ''2024-05-01T10:00:00'', py ''ls'')"
  have h1: "(\<exists>c\<in>set (py ''ls''). \<not> isspace c) \<and> 10000 \<le> length (commands ?old)"
    by (simp add: py_def isspace_def)
  have h2: "(\<forall>(now, raw)\<in>set ?inputs. \<exists>c\<in>set raw. \<not> isspace c) \<and> ?inputs \<noteq> []
        \<and> 10000 \<le> length (commands ?empty) + length ?inputs"
    by (simp add: py_def isspace_def)
  note r = log_command_retention [of "py ''ls''" ?old "py ''2024-05-01T10:00:00''" ?inputs]
  note r1 = r [THEN conjunct1, THEN mp, OF h1, THEN conjunct2]
  note q = log_command_retention [of "py ''ls''" ?empty "py ''2024-05-01T10:00:00''" ?inputs]
  note q2 = q [THEN conjunct2, THEN mp, OF h2, THEN conjunct2]
  show ?thesis using r1 q2 by (rule conjI)
qed

text \<open>
  C6 (amended). \<open>log_command\<close> strips the whitespace around the line first, then the
  history number (digits followed by whitespace), then whitespace again. A line of
  whitespace only leaves the tracker as it was, file included. For any other line the
  entry stored last has this command, and as base command the first run of
  non-whitespace characters of the command. The command is the one the specification
  words (\<open>spec_command\<close>) whenever the stripped line is not made of digits only.
  Logging \<open>" 42  ls -la "\<close> stores the command \<open>"ls -la"\<close> with base command
  \<open>"ls"\<close>.
\<close>

theorem log_command_normalizes:
  "((\<forall>c\<in>set raw. isspace c) \<longrightarrow> log_command now raw t = t)
   \<and> ((\<exists>c\<in>set raw. \<not> isspace c) \<longrightarrow>
        command (last (commands (log_command now raw t)))
          = strip (sub_history_number (strip raw))
        \<and> base_command (last (commands (log_command now raw t)))
          = takeWhile (\<lambda>c. \<not> isspace c) (strip (sub_history_number (strip raw)))
        \<and> base_command (last (commands (log_command now raw t))) \<noteq> [])
   \<and> ((\<exists>c\<in>set (strip raw). \<not> isdigit c) \<longrightarrow>
        strip (sub_history_number (strip raw)) = spec_command raw)
   \<and> commands (log_command now (py '' 42  ls -la '') \<lparr>commands = [], commands_file = None\<rparr>)
        = [\<lparr>command = py ''ls -la'', base_command = py ''ls'', timestamp = now,
            full_command = py ''42  ls -la''\<rparr>]
   \<and> log_command now (py ''   '') t = t"
proof (intro conjI impI)
  assume "\<forall>c\<in>set raw. isspace c"
  then show "log_command now raw t = t" by (rule log_command_blank)
next
  assume a: "\<exists>c\<in>set raw. \<not> isspace c"
  let ?cmd = "strip (sub_history_number (strip raw))"
  have "commands (log_command now raw t) =
      drop (length (commands t) + 1 - 10000) (commands t) @ [entry_of now raw]"
    using log_command_commands [OF a, of now t] by simp
  then have l: "last (commands (log_command now raw t)) = entry_of now raw" by simp
  show "command (last (commands (log_command now raw t))) = ?cmd"
    unfolding l by (simp add: entry_of_def Let_def)
  show "base_command (last (commands (log_command now raw t)))
      = takeWhile (\<lambda>c. \<not> isspace c) ?cmd"
    unfolding l by (simp add: entry_of_def Let_def)
  from a have ne: "?cmd \<noteq> []" using command_empty_iff [of raw] by blast
  then have "\<not> isspace (hd ?cmd)" by (rule strip_hd)
  with ne have "takeWhile (\<lambda>c. \<not> isspace c) ?cmd \<noteq> []"
    by (simp add: takeWhile_eq_Nil_iff)
  then show "base_command (last (commands (log_command now raw t))) \<noteq> []"
    unfolding l by (simp add: entry_of_def Let_def)
next
  assume "\<exists>c\<in>set (strip raw). \<not> isdigit c"
  then show "strip (sub_history_number (strip raw)) = spec_command raw"
    by (rule command_agrees_spec)
next
  have a: "\<exists>c\<in>set (py '' 42  ls -la ''). \<not> isspace c"
    by (simp add: py_def isspace_def)
  have s: "strip (py '' 42  ls -la '') = py ''42  ls -la''"
    by code_simp
  have c: "strip (sub_history_number (py ''42  ls -la'')) = py ''ls -la''"
    by code_simp
  have b: "takeWhile (\<lambda>c. \<not> isspace c) (py ''ls -la'') = py ''ls''"
    by code_simp
  have "entry_of now (py '' 42  ls -la '')
      = \<lparr>command = py ''ls -la'', base_command = py ''ls'', timestamp = now,
          full_command = py ''42  ls -la''\<rparr>"
    by (simp add: entry_of_def Let_def s c b)
  then show "commands (log_command now (py '' 42  ls -la '') \<lparr>commands = [], commands_file = None\<rparr>)
        = [\<lparr>command = py ''ls -la'', base_command = py ''ls'', timestamp = now,
            full_command = py ''42  ls -la''\<rparr>]"
    using log_command_commands [OF a, of now "\<lparr>commands = [], commands_file = None\<rparr>"]
    by simp
next
  show "log_command now (py ''   '') t = t"
    by (rule log_command_blank) (simp add: py_def isspace_def)
qed

theorem log_command_normalizes_witness:
  "log_command (py ''2024-05-01T10:00:00'') [32, 9, 0x3000] \<lparr>commands = [], commands_file = None\<rparr>
     = \<lparr>commands = [], commands_file = None\<rparr>
   \<and> command (last (commands
        (log_command (py ''2024-05-01T10:00:00'') (py ''7  git status '')
           \<lparr>commands = [], commands_file = None\<rparr>)))
      = py ''git status''
   \<and> base_command (last (commands
        (log_command (py ''2024-05-01T10:00:00'') (py ''7  git status '')
           \<lparr>commands = [], commands_file = None\<rparr>)))
      = py ''git''
   \<and> spec_command (py ''7  git status '') = py ''git status''"
proof -
  let ?now = "py ''2024-05-01T10:00:00''"
  let ?empty = "\<lparr>commands = [], commands_file = None :: str option\<rparr>"
  let ?line = "py ''7  git status ''"
  have h1: "\<forall>c\<in>set [32, 9, 0x3000]. isspace c"
    by (simp add: isspace_def)
  have h2: "\<exists>c\<in>set ?line. \<not> isspace c"
    by (simp add: py_def isspace_def)
  have st: "strip ?line = py ''7  git status''"
    by code_simp
  have h3: "\<exists>c\<in>set (strip ?line). \<not> isdigit c"
    unfolding st by (simp add: py_def isdigit_def decimal_ranges_def)
  have v: "strip (sub_history_number (strip ?line)) = py ''git status''"
    by code_simp
  have w: "takeWhile (\<lambda>c. \<not> isspace c) (py ''git status'') = py ''git''"
    by code_simp
  note n1 = log_command_normalizes [of "[32, 9, 0x3000]" ?now ?empty]
  note n2 = log_command_normalizes [of ?line ?now ?empty]
  from n1 h1 have c1: "log_command ?now [32, 9, 0x3000] ?empty = ?empty"
    by blast
  from n2 h2 have c2: "command (last (commands (log_command ?now ?line ?empty)))
      = strip (sub_history_number (strip ?line))"
    and c3: "base_command (last (commands (log_command ?now ?line ?empty)))
      = takeWhile (\<lambda>c. \<not> isspace c) (strip (sub_history_number (strip ?line)))"
    by blast+
  from n2 h3 have c4: "strip (sub_history_number (strip ?line)) = spec_command ?line"
    by blast
  show ?thesis
    using c1 c2 c3 c4 unfolding v w by simp
qed

theorem log_command_normalizes_counterexample:
  "spec_command (py ''42 '') = []
   \<and> commands (log_command (py ''2024-05-01T10:00:00'') (py ''42 '')
        \<lparr>commands = [], commands_file = None\<rparr>)
      = [\<lparr>command = py ''42'', base_command = py ''42'',
          timestamp = py ''2024-05-01T10:00:00'', full_command = py ''42''\<rparr>]"
  by code_simp

section \<open>Dicts and counters: lemmas\<close>

lemma map_of_dict_set: "map_of (dict_set d k v) = (map_of d)(k \<mapsto> v)"
  by (induction d) (auto simp: fun_eq_iff)

lemma keys_dict_set:
  "map fst (dict_set d k v) = (if k \<in> fst ` set d then map fst d else map fst d @ [k])"
  by (induction d) (auto simp: rev_image_eqI)

lemma set_keys_dict_set: "fst ` set (dict_set d k v) = insert k (fst ` set d)"
  using keys_dict_set [of d k v, THEN arg_cong, of set] by auto

lemma distinct_dict_set: "distinct (map fst d) \<Longrightarrow> distinct (map fst (dict_set d k v))"
  by (simp add: keys_dict_set)

lemma map_of_counter_add:
  "map_of (counter_add d a) k =
     (if k = a then Some (case map_of d a of None \<Rightarrow> 1 | Some n \<Rightarrow> n + 1) else map_of d k)"
  by (simp add: counter_add_def map_of_dict_set)

lemma distinct_foldl_counter_add:
  "distinct (map fst d) \<Longrightarrow> distinct (map fst (foldl counter_add d ks))"
proof (induction ks arbitrary: d)
  case Nil
  then show ?case by simp
next
  case (Cons a ks)
  have "distinct (map fst (counter_add d a))"
    unfolding counter_add_def using Cons.prems by (rule distinct_dict_set)
  then show ?case using Cons.IH by simp
qed

lemma keys_foldl_counter_add:
  "fst ` set (foldl counter_add d ks) = fst ` set d \<union> set ks"
proof (induction ks arbitrary: d)
  case Nil
  then show ?case by simp
next
  case (Cons a ks)
  have "fst ` set (counter_add d a) = insert a (fst ` set d)"
    unfolding counter_add_def by (rule set_keys_dict_set)
  then show ?case using Cons.IH by simp
qed

lemma map_of_foldl_counter_add:
  "map_of (foldl counter_add d ks) k =
     (case map_of d k of
        None \<Rightarrow> if k \<in> set ks then Some (count_list ks k) else None
      | Some n \<Rightarrow> Some (n + count_list ks k))"
proof (induction ks arbitrary: d)
  case Nil
  then show ?case by (simp split: option.split)
next
  case (Cons a ks)
  show ?case
    by (simp add: Cons.IH map_of_counter_add split: option.split)
qed

lemma map_of_Counter:
  "map_of (Counter ks) k = (if k \<in> set ks then Some (count_list ks k) else None)"
  by (simp add: Counter_def map_of_foldl_counter_add)

lemma distinct_Counter: "distinct (map fst (Counter ks))"
  by (simp add: Counter_def distinct_foldl_counter_add)

lemma keys_Counter: "fst ` set (Counter ks) = set ks"
  by (simp add: Counter_def keys_foldl_counter_add)

lemma length_Counter: "length (Counter ks) = card (set ks)"
proof -
  have "length (Counter ks) = length (map fst (Counter ks))" by simp
  also have "\<dots> = card (set (map fst (Counter ks)))"
    using distinct_Counter [of ks] by (rule distinct_card [symmetric])
  finally show ?thesis by (simp add: keys_Counter)
qed

lemma Counter_mset:
  assumes "mset ks = mset ks'"
  shows "map_of (Counter ks) = map_of (Counter ks')" and "length (Counter ks) = length (Counter ks')"
proof -
  from assms have s: "set ks = set ks'" by (rule mset_eq_setD)
  have c: "count_list ks k = count_list ks' k" for k
    using assms by (metis count_mset)
  show "map_of (Counter ks) = map_of (Counter ks')"
    by (rule ext) (simp add: map_of_Counter s c)
  show "length (Counter ks) = length (Counter ks')"
    by (simp add: length_Counter s)
qed

section \<open>The window filter and the last-used loop\<close>

lemma no_aware_iff:
  "no_aware f cs \<longleftrightarrow> (\<forall>c\<in>set cs. \<forall>n off. f (timestamp c) \<noteq> Some (Aware n off))"
  by (auto simp: no_aware_def list_all_iff split: option.splits datetime.splits)

lemma naive_case:
  "(case v of None \<Rightarrow> False | Some (Naive n) \<Rightarrow> True | Some (Aware n off) \<Rightarrow> False)
     \<longleftrightarrow> (\<exists>n. v = Some (Naive n))"
proof (cases v)
  case None
  then show ?thesis by simp
next
  case (Some d)
  then show ?thesis by (cases d) simp_all
qed

lemma all_naive_iff:
  "all_naive f cs \<longleftrightarrow> (\<forall>c\<in>set cs. \<exists>n. f (timestamp c) = Some (Naive n))"
  by (simp add: all_naive_def list_all_iff naive_case)

lemma all_naive_no_aware: "all_naive f cs \<Longrightarrow> no_aware f cs"
  by (auto simp: all_naive_iff no_aware_iff)

lemma no_aware_all_naive:
  "no_aware f cs \<Longrightarrow> \<forall>c\<in>set cs. f (timestamp c) \<noteq> None \<Longrightarrow> all_naive f cs"
  unfolding all_naive_iff no_aware_iff
proof
  fix c
  assume a: "\<forall>c\<in>set cs. \<forall>n off. f (timestamp c) \<noteq> Some (Aware n off)"
    and b: "\<forall>c\<in>set cs. f (timestamp c) \<noteq> None" and c: "c \<in> set cs"
  from b c obtain v where v: "f (timestamp c) = Some v" by auto
  with a c show "\<exists>n. f (timestamp c) = Some (Naive n)" by (cases v) auto
qed

lemma filter_since_subset: "filter_since f cutoff cs = Inr kept \<Longrightarrow> set kept \<subseteq> set cs"
  by (induction cs arbitrary: kept) (auto split: option.splits sum.splits if_splits)

lemma filter_since_eq:
  "no_aware f cs \<Longrightarrow>
   filter_since f cutoff cs =
     (if \<forall>c\<in>set cs. f (timestamp c) \<noteq> None
      then Inr (filter (\<lambda>c. \<exists>n. f (timestamp c) = Some (Naive n) \<and> cutoff \<le> n) cs)
      else Inl ValueError)"
proof (induction cs)
  case Nil
  show ?case by simp
next
  case (Cons c cs)
  from Cons.prems have na: "no_aware f cs"
    and c: "\<And>n off. f (timestamp c) \<noteq> Some (Aware n off)"
    by (auto simp: no_aware_iff)
  note IH = Cons.IH [OF na]
  show ?case
  proof (cases "f (timestamp c)")
    case None
    then show ?thesis by auto
  next
    case (Some v)
    with c obtain n where v: "v = Naive n" by (cases v) auto
    show ?thesis using Some v IH by simp
  qed
qed

lemma finite_used_times: "finite (used_times f cs b)"
proof -
  have "used_times f cs b
      \<subseteq> (\<lambda>c. case f (timestamp c) of Some (Naive n) \<Rightarrow> n | _ \<Rightarrow> 0) ` set cs"
    by (force simp: used_times_def)
  then show ?thesis by (rule finite_subset) simp
qed

lemma used_times_Cons:
  "used_times f (c # cs) b =
     (case f (timestamp c) of
        Some (Naive ts) \<Rightarrow>
          if base_command c = b then insert ts (used_times f cs b) else used_times f cs b
      | _ \<Rightarrow> used_times f cs b)"
  by (auto simp: used_times_def split: option.splits datetime.splits)

lemma used_times_set: "set cs = set cs' \<Longrightarrow> used_times f cs = used_times f cs'"
  by (simp add: used_times_def fun_eq_iff)

lemma Max_insert_max:
  "finite A \<Longrightarrow> Max (insert (max v t) A) = Max (insert v (insert t A))"
  by (cases "A = {}") (simp_all add: max.assoc)

text \<open>
  While no aware timestamp is met, the dict \<open>last_used\<close> holds naive datetimes only: it
  is the image of a dict of field values.
\<close>

lemma map_of_naive:
  "map_of (map (\<lambda>(k, n). (k, Naive n)) lun) b = map_option Naive (map_of lun b)"
  by (induction lun) auto

lemma dict_set_naive:
  "dict_set (map (\<lambda>(k, n). (k, Naive n)) lun) k (Naive v)
     = map (\<lambda>(k, n). (k, Naive n)) (dict_set lun k v)"
  by (induction lun) auto

lemma last_used_loop_step:
  assumes "f (timestamp c) = Some (Naive ts)"
  shows "last_used_loop f (map (\<lambda>(k, n). (k, Naive n)) lun) (c # cs)
     = last_used_loop f
         (map (\<lambda>(k, n). (k, Naive n))
            (case map_of lun (base_command c) of
               None \<Rightarrow> dict_set lun (base_command c) ts
             | Some old \<Rightarrow> if ts > old then dict_set lun (base_command c) ts else lun)) cs"
  using assms by (cases "map_of lun (base_command c)") (simp_all add: map_of_naive dict_set_naive)

lemma last_used_loop_error:
  "no_aware f cs \<Longrightarrow> \<exists>c\<in>set cs. f (timestamp c) = None \<Longrightarrow>
   last_used_loop f (map (\<lambda>(k, n). (k, Naive n)) lun) cs = Inl ValueError"
proof (induction cs arbitrary: lun)
  case Nil
  then show ?case by simp
next
  case (Cons c cs)
  from Cons.prems(1) have na: "no_aware f cs"
    and c: "\<And>n off. f (timestamp c) \<noteq> Some (Aware n off)"
    by (auto simp: no_aware_iff)
  show ?case
  proof (cases "f (timestamp c)")
    case None
    then show ?thesis by simp
  next
    case (Some v)
    with c obtain ts where ts: "f (timestamp c) = Some (Naive ts)" by (cases v) auto
    with Cons.prems(2) have "\<exists>c\<in>set cs. f (timestamp c) = None" by auto
    from Cons.IH [OF na this] show ?thesis
      unfolding last_used_loop_step [of f c ts, OF ts] .
  qed
qed

lemma last_used_loop_ok:
  assumes "all_naive f cs"
  shows "\<exists>lun'. last_used_loop f (map (\<lambda>(k, n). (k, Naive n)) lun) cs
         = Inr (map (\<lambda>(k, n). (k, Naive n)) lun')
     \<and> (\<forall>b. map_of lun' b =
           (if used_times f cs b \<union> set_option (map_of lun b) = {} then None
            else Some (Max (used_times f cs b \<union> set_option (map_of lun b)))))"
  using assms
proof (induction cs arbitrary: lun)
  case Nil
  show ?case by (auto simp: used_times_def split: option.splits)
next
  case (Cons c cs)
  from Cons.prems obtain ts where ts: "f (timestamp c) = Some (Naive ts)"
    by (auto simp: all_naive_iff)
  let ?k = "base_command c"
  let ?lu1 = "case map_of lun ?k of None \<Rightarrow> dict_set lun ?k ts
     | Some old \<Rightarrow> if ts > old then dict_set lun ?k ts else lun"
  have m1: "map_of ?lu1 b =
      (if b = ?k then Some (case map_of lun b of None \<Rightarrow> ts | Some old \<Rightarrow> max old ts)
       else map_of lun b)" for b
    by (auto simp: map_of_dict_set max_def split: option.splits)
  from Cons.prems have "all_naive f cs" by (simp add: all_naive_iff)
  from Cons.IH [OF this, of ?lu1] obtain lu' where
    r: "last_used_loop f (map (\<lambda>(k, n). (k, Naive n)) ?lu1) cs
          = Inr (map (\<lambda>(k, n). (k, Naive n)) lu')"
    and m: "\<And>b. map_of lu' b =
           (if used_times f cs b \<union> set_option (map_of ?lu1 b) = {} then None
            else Some (Max (used_times f cs b \<union> set_option (map_of ?lu1 b))))"
    by blast
  have "last_used_loop f (map (\<lambda>(k, n). (k, Naive n)) lun) (c # cs)
      = Inr (map (\<lambda>(k, n). (k, Naive n)) lu')"
    unfolding last_used_loop_step [of f c ts, OF ts] by (rule r)
  moreover have "map_of lu' b =
           (if used_times f (c # cs) b \<union> set_option (map_of lun b) = {} then None
            else Some (Max (used_times f (c # cs) b \<union> set_option (map_of lun b))))" for b
  proof (cases "b = ?k")
    case False
    then show ?thesis unfolding m m1 by (simp add: used_times_Cons ts)
  next
    case True
    show ?thesis
    proof (cases "map_of lun b")
      case None
      then show ?thesis unfolding m m1 using True by (simp add: used_times_Cons ts)
    next
      case (Some old)
      have "Max (insert (max old ts) (used_times f cs b))
          = Max (insert old (insert ts (used_times f cs b)))"
        using finite_used_times by (rule Max_insert_max)
      then show ?thesis unfolding m m1 using True Some
        by (simp add: used_times_Cons ts insert_commute)
    qed
  qed
  ultimately show ?case by blast
qed

section \<open>Claims about the statistics\<close>

lemma map_of_isoformat:
  "map_of (map (\<lambda>(k, v). (k, isofmt v)) lu) b = map_option isofmt (map_of lu b)"
  by (induction lu) auto

lemma get_stats_Inl:
  "commands_to_analyze f now days t = Inl e \<Longrightarrow> get_stats f isofmt now days t = Inl e"
  by (simp add: get_stats_def)

lemma get_stats_ValueError:
  assumes "commands_to_analyze f now days t = Inr cs"
    and "no_aware f cs"
    and "\<exists>c\<in>set cs. f (timestamp c) = None"
  shows "get_stats f isofmt now days t = Inl ValueError"
  using assms(1) last_used_loop_error [OF assms(2,3), of "[]"]
  by (simp add: get_stats_def Let_def)

lemma get_stats_Inr:
  assumes "commands_to_analyze f now days t = Inr cs"
    and "all_naive f cs"
  shows "\<exists>st. get_stats f isofmt now days t = Inr st
     \<and> total_commands st = length cs
     \<and> unique_base_commands st = card (base_command ` set cs)
     \<and> base_command_counts st = Counter (map base_command cs)
     \<and> full_command_counts st = Counter (map command cs)
     \<and> (\<forall>b. map_of (last_used st) b =
           (if used_times f cs b = {} then None
            else Some (isofmt (Naive (Max (used_times f cs b))))))
     \<and> period_days st = days"
proof -
  from last_used_loop_ok [OF assms(2), of "[]"] obtain lun where
    lu: "last_used_loop f [] cs = Inr (map (\<lambda>(k, n). (k, Naive n)) lun)"
    and m: "\<And>b. map_of lun b =
       (if used_times f cs b = {} then None else Some (Max (used_times f cs b)))"
    by auto
  show ?thesis
    using assms(1) lu
    by (simp add: get_stats_def Let_def length_Counter map_of_isoformat map_of_naive m del: map_map)
qed

lemma filter_since_mset:
  assumes "mset cs = mset cs'" and "no_aware f cs"
  shows "(\<exists>e. filter_since f k cs = Inl e \<and> filter_since f k cs' = Inl e)
     \<or> (\<exists>a b. filter_since f k cs = Inr a \<and> filter_since f k cs' = Inr b \<and> mset a = mset b)"
proof -
  from assms(1) have s: "set cs = set cs'" by (rule mset_eq_setD)
  from assms(2) s have na: "no_aware f cs'" by (simp add: no_aware_iff)
  have "mset (filter P cs) = mset (filter P cs')" for P
    using assms(1) by (simp only: mset_filter)
  then show ?thesis
    unfolding filter_since_eq [OF assms(2)] filter_since_eq [OF na] s by simp
qed

lemma commands_to_analyze_subset:
  "commands_to_analyze f now days t = Inr cs \<Longrightarrow> set cs \<subseteq> set (commands t)"
  by (auto simp: commands_to_analyze_def split: option.splits if_splits sum.splits
      dest: filter_since_subset)

lemma commands_to_analyze_mset:
  assumes "mset (commands t) = mset (commands t')" and "no_aware f (commands t)"
  shows "(\<exists>e. commands_to_analyze f now days t = Inl e \<and> commands_to_analyze f now days t' = Inl e)
     \<or> (\<exists>a b. commands_to_analyze f now days t = Inr a
            \<and> commands_to_analyze f now days t' = Inr b \<and> mset a = mset b)"
proof (cases "days = None \<or> days = Some 0")
  case True
  then show ?thesis using assms(1) by (auto simp: commands_to_analyze_def)
next
  case False
  then obtain d where d: "days = Some d" "d \<noteq> 0" by auto
  show ?thesis
  proof (cases "timedelta_days d")
    case (Inl e)
    then show ?thesis by (simp add: commands_to_analyze_def d)
  next
    case (Inr delta)
    show ?thesis
    proof (cases "datetime_sub now delta")
      case (Inl e)
      then show ?thesis using Inr by (simp add: commands_to_analyze_def d)
    next
      case cutoff: (Inr cutoff)
      show ?thesis
        using filter_since_mset [OF assms, of cutoff] Inr cutoff
        by (simp add: commands_to_analyze_def d)
    qed
  qed
qed

lemma get_stats_mset:
  assumes "mset cs = mset cs'"
    and "commands_to_analyze f now days t = Inr cs"
    and "commands_to_analyze f now days t' = Inr cs'"
    and "no_aware f cs"
  shows "same_result (get_stats f isofmt now days t) (get_stats f isofmt now days t')"
proof -
  from assms(1) have s: "set cs = set cs'" by (rule mset_eq_setD)
  from assms(4) s have na': "no_aware f cs'" by (simp add: no_aware_iff)
  show ?thesis
  proof (cases "\<forall>c\<in>set cs. f (timestamp c) \<noteq> None")
    case False
    then have "get_stats f isofmt now days t = Inl ValueError"
      using get_stats_ValueError [OF assms(2,4), of isofmt] by simp
    moreover from False s have "get_stats f isofmt now days t' = Inl ValueError"
      using get_stats_ValueError [OF assms(3) na', of isofmt] by simp
    ultimately show ?thesis by (simp add: same_result_def)
  next
    case True
    with assms(4) have an: "all_naive f cs" by (rule no_aware_all_naive)
    from get_stats_Inr [OF assms(2) an, of isofmt] obtain st where
      st: "get_stats f isofmt now days t = Inr st"
      and st1: "total_commands st = length cs"
        "unique_base_commands st = card (base_command ` set cs)"
        "base_command_counts st = Counter (map base_command cs)"
        "full_command_counts st = Counter (map command cs)"
        "\<And>b. map_of (last_used st) b =
           (if used_times f cs b = {} then None
            else Some (isofmt (Naive (Max (used_times f cs b)))))"
        "period_days st = days"
      by blast
    from an s have an': "all_naive f cs'" by (simp add: all_naive_iff)
    from get_stats_Inr [OF assms(3) an', of isofmt] obtain st' where
      st': "get_stats f isofmt now days t' = Inr st'"
      and st1': "total_commands st' = length cs'"
        "unique_base_commands st' = card (base_command ` set cs')"
        "base_command_counts st' = Counter (map base_command cs')"
        "full_command_counts st' = Counter (map command cs')"
        "\<And>b. map_of (last_used st') b =
           (if used_times f cs' b = {} then None
            else Some (isofmt (Naive (Max (used_times f cs' b)))))"
        "period_days st' = days"
      by blast
    have len: "length cs = length cs'"
      using assms(1) by (rule mset_eq_length)
    have b: "mset (map base_command cs) = mset (map base_command cs')"
      and c: "mset (map command cs) = mset (map command cs')"
      using assms(1) by simp_all
    have lu: "map_of (last_used st) = map_of (last_used st')"
      by (rule ext) (simp add: st1(5) st1'(5) used_times_set [OF s])
    have "stats_equal st st'"
      unfolding stats_equal_def st1(1-4,6) st1'(1-4,6)
      using len s Counter_mset(1) [OF b] Counter_mset(1) [OF c] lu by simp
    then show ?thesis by (simp add: same_result_def st st')
  qed
qed

text \<open>
  C8 (amended). When no timestamp of the store carries a UTC offset, the outcome of
  \<open>get_stats\<close> depends on the entries only as a multiset: for two stores holding the
  same entries in any order, the same clock reading and the same window, both calls
  raise the same error or return statistics that are equal (the total, the number of
  distinct base commands, both tables of counts, the last-used times and the recorded
  window). The timestamps that \<open>log_command\<close> writes carry no offset. With offsets
  the order matters: of two timestamps of one base command that denote the same instant
  with different offsets, the loop keeps the one it meets first.
\<close>

theorem get_stats_deterministic:
  assumes "no_aware f (commands t)" and "mset (commands t) = mset (commands t')"
  shows "same_result (get_stats f isofmt now days t) (get_stats f isofmt now days t')"
  using commands_to_analyze_mset [OF assms(2,1), of now days]
proof (elim disjE exE conjE)
  fix e
  assume "commands_to_analyze f now days t = Inl e" "commands_to_analyze f now days t' = Inl e"
  then show ?thesis by (simp add: get_stats_Inl same_result_def)
next
  fix a b
  assume a: "commands_to_analyze f now days t = Inr a"
    and b: "commands_to_analyze f now days t' = Inr b" and m: "mset a = mset b"
  from commands_to_analyze_subset [OF a] assms(1) have "no_aware f a"
    by (auto simp: no_aware_iff)
  with m a b show ?thesis by (rule get_stats_mset)
qed

theorem get_stats_deterministic_witness:
  "no_aware
     (map_of [(py ''2024-05-01T10:00:00'', Naive 63850154400000000),
              (py ''2024-05-09T12:00:00'', Naive 63850852800000000)])
     (commands \<lparr>commands =
        [\<lparr>command = py ''git status'', base_command = py ''git'',
           timestamp = py ''2024-05-01T10:00:00'', full_command = py ''git status''\<rparr>,
         \<lparr>command = py ''ls'', base_command = py ''ls'',
           timestamp = py ''2024-05-09T12:00:00'', full_command = py ''12  ls''\<rparr>],
        commands_file = None\<rparr>)
   \<and> mset (commands \<lparr>commands =
        [\<lparr>command = py ''git status'', base_command = py ''git'',
           timestamp = py ''2024-05-01T10:00:00'', full_command = py ''git status''\<rparr>,
         \<lparr>command = py ''ls'', base_command = py ''ls'',
           timestamp = py ''2024-05-09T12:00:00'', full_command = py ''12  ls''\<rparr>],
        commands_file = None\<rparr>)
   = mset (commands \<lparr>commands =
        [\<lparr>command = py ''ls'', base_command = py ''ls'',
           timestamp = py ''2024-05-09T12:00:00'', full_command = py ''12  ls''\<rparr>,
         \<lparr>command = py ''git status'', base_command = py ''git'',
           timestamp = py ''2024-05-01T10:00:00'', full_command = py ''git status''\<rparr>],
        commands_file = None\<rparr>)
   \<and> same_result
     (get_stats
        (map_of [(py ''2024-05-01T10:00:00'', Naive 63850154400000000),
                 (py ''2024-05-09T12:00:00'', Naive 63850852800000000)])
        (\<lambda>ts. if ts = Naive 63850852800000000 then py ''2024-05-09T12:00:00''
              else py ''2024-05-01T10:00:00'')
        63850939200000000 (Some 5)
        \<lparr>commands =
          [\<lparr>command = py ''git status'', base_command = py ''git'',
             timestamp = py ''2024-05-01T10:00:00'', full_command = py ''git status''\<rparr>,
           \<lparr>command = py ''ls'', base_command = py ''ls'',
             timestamp = py ''2024-05-09T12:00:00'', full_command = py ''12  ls''\<rparr>],
         commands_file = None\<rparr>)
     (get_stats
        (map_of [(py ''2024-05-01T10:00:00'', Naive 63850154400000000),
                 (py ''2024-05-09T12:00:00'', Naive 63850852800000000)])
        (\<lambda>ts. if ts = Naive 63850852800000000 then py ''2024-05-09T12:00:00''
              else py ''2024-05-01T10:00:00'')
        63850939200000000 (Some 5)
        \<lparr>commands =
          [\<lparr>command = py ''ls'', base_command = py ''ls'',
             timestamp = py ''2024-05-09T12:00:00'', full_command = py ''12  ls''\<rparr>,
           \<lparr>command = py ''git status'', base_command = py ''git'',
             timestamp = py ''2024-05-01T10:00:00'', full_command = py ''git status''\<rparr>],
         commands_file = None\<rparr>)"
proof -
  let ?f = "map_of [(py ''2024-05-01T10:00:00'', Naive 63850154400000000),
                    (py ''2024-05-09T12:00:00'', Naive 63850852800000000)]"
  let ?git = "\<lparr>command = py ''git status'', base_command = py ''git'',
           timestamp = py ''2024-05-01T10:00:00'', full_command = py ''git status''\<rparr>"
  let ?ls = "\<lparr>command = py ''ls'', base_command = py ''ls'',
           timestamp = py ''2024-05-09T12:00:00'', full_command = py ''12  ls''\<rparr>"
  let ?a = "\<lparr>commands = [?git, ?ls], commands_file = None :: str option\<rparr>"
  let ?b = "\<lparr>commands = [?ls, ?git], commands_file = None :: str option\<rparr>"
  have h1: "no_aware ?f (commands ?a)"
    by (simp add: no_aware_def py_def)
  have h2: "mset (commands ?a) = mset (commands ?b)"
    by simp
  from h1 h2 get_stats_deterministic [OF h1 h2] show ?thesis
    by (intro conjI)
qed

theorem get_stats_deterministic_counterexample:
  "mset (commands \<lparr>commands =
        [\<lparr>command = py ''git status'', base_command = py ''git'',
           timestamp = py ''2024-05-01T10:00:00+00:00'', full_command = py ''git status''\<rparr>,
         \<lparr>command = py ''git pull'', base_command = py ''git'',
           timestamp = py ''2024-05-01T12:00:00+02:00'', full_command = py ''git pull''\<rparr>],
        commands_file = None\<rparr>)
   = mset (commands \<lparr>commands =
        [\<lparr>command = py ''git pull'', base_command = py ''git'',
           timestamp = py ''2024-05-01T12:00:00+02:00'', full_command = py ''git pull''\<rparr>,
         \<lparr>command = py ''git status'', base_command = py ''git'',
           timestamp = py ''2024-05-01T10:00:00+00:00'', full_command = py ''git status''\<rparr>],
        commands_file = None\<rparr>)
   \<and> get_stats
        (map_of [(py ''2024-05-01T10:00:00+00:00'', Aware 63850154400000000 0),
                 (py ''2024-05-01T12:00:00+02:00'', Aware 63850161600000000 7200000000)])
        (\<lambda>ts. if ts = Aware 63850161600000000 7200000000 then py ''2024-05-01T12:00:00+02:00''
              else py ''2024-05-01T10:00:00+00:00'')
        63850939200000000 None
        \<lparr>commands =
          [\<lparr>command = py ''git status'', base_command = py ''git'',
             timestamp = py ''2024-05-01T10:00:00+00:00'', full_command = py ''git status''\<rparr>,
           \<lparr>command = py ''git pull'', base_command = py ''git'',
             timestamp = py ''2024-05-01T12:00:00+02:00'', full_command = py ''git pull''\<rparr>],
         commands_file = None\<rparr>
      = Inr \<lparr>total_commands = 2, unique_base_commands = 1,
             base_command_counts = [(py ''git'', 2)],
             full_command_counts = [(py ''git status'', 1), (py ''git pull'', 1)],
             last_used = [(py ''git'', py ''2024-05-01T10:00:00+00:00'')],
             period_days = None\<rparr>
   \<and> get_stats
        (map_of [(py ''2024-05-01T10:00:00+00:00'', Aware 63850154400000000 0),
                 (py ''2024-05-01T12:00:00+02:00'', Aware 63850161600000000 7200000000)])
        (\<lambda>ts. if ts = Aware 63850161600000000 7200000000 then py ''2024-05-01T12:00:00+02:00''
              else py ''2024-05-01T10:00:00+00:00'')
        63850939200000000 None
        \<lparr>commands =
          [\<lparr>command = py ''git pull'', base_command = py ''git'',
             timestamp = py ''2024-05-01T12:00:00+02:00'', full_command = py ''git pull''\<rparr>,
           \<lparr>command = py ''git status'', base_command = py ''git'',
             timestamp = py ''2024-05-01T10:00:00+00:00'', full_command = py ''git status''\<rparr>],
         commands_file = None\<rparr>
      = Inr \<lparr>total_commands = 2, unique_base_commands = 1,
             base_command_counts = [(py ''git'', 2)],
             full_command_counts = [(py ''git pull'', 1), (py ''git status'', 1)],
             last_used = [(py ''git'', py ''2024-05-01T12:00:00+02:00'')],
             period_days = None\<rparr>
   \<and> \<not> same_result
       (get_stats
        (map_of [(py ''2024-05-01T10:00:00+00:00'', Aware 63850154400000000 0),
                 (py ''2024-05-01T12:00:00+02:00'', Aware 63850161600000000 7200000000)])
        (\<lambda>ts. if ts = Aware 63850161600000000 7200000000 then py ''2024-05-01T12:00:00+02:00''
              else py ''2024-05-01T10:00:00+00:00'')
        63850939200000000 None
        \<lparr>commands =
          [\<lparr>command = py ''git status'', base_command = py ''git'',
             timestamp = py ''2024-05-01T10:00:00+00:00'', full_command = py ''git status''\<rparr>,
           \<lparr>command = py ''git pull'', base_command = py ''git'',
             timestamp = py ''2024-05-01T12:00:00+02:00'', full_command = py ''git pull''\<rparr>],
         commands_file = None\<rparr>)
       (get_stats
        (map_of [(py ''2024-05-01T10:00:00+00:00'', Aware 63850154400000000 0),
                 (py ''2024-05-01T12:00:00+02:00'', Aware 63850161600000000 7200000000)])
        (\<lambda>ts. if ts = Aware 63850161600000000 7200000000 then py ''2024-05-01T12:00:00+02:00''
              else py ''2024-05-01T10:00:00+00:00'')
        63850939200000000 None
        \<lparr>commands =
          [\<lparr>command = py ''git pull'', base_command = py ''git'',
             timestamp = py ''2024-05-01T12:00:00+02:00'', full_command = py ''git pull''\<rparr>,
           \<lparr>command = py ''git status'', base_command = py ''git'',
             timestamp = py ''2024-05-01T10:00:00+00:00'', full_command = py ''git status''\<rparr>],
         commands_file = None\<rparr>)"
proof -
  let ?f = "map_of [(py ''2024-05-01T10:00:00+00:00'', Aware 63850154400000000 0),
                    (py ''2024-05-01T12:00:00+02:00'', Aware 63850161600000000 7200000000)]"
  let ?isofmt = "\<lambda>ts. if ts = Aware 63850161600000000 7200000000
                      then py ''2024-05-01T12:00:00+02:00'' else py ''2024-05-01T10:00:00+00:00''"
  let ?status = "\<lparr>command = py ''git status'', base_command = py ''git'',
             timestamp = py ''2024-05-01T10:00:00+00:00'', full_command = py ''git status''\<rparr>"
  let ?pull = "\<lparr>command = py ''git pull'', base_command = py ''git'',
             timestamp = py ''2024-05-01T12:00:00+02:00'', full_command = py ''git pull''\<rparr>"
  let ?a = "\<lparr>commands = [?status, ?pull], commands_file = None :: str option\<rparr>"
  let ?b = "\<lparr>commands = [?pull, ?status], commands_file = None :: str option\<rparr>"
  let ?ra = "\<lparr>total_commands = 2, unique_base_commands = 1,
             base_command_counts = [(py ''git'', 2)],
             full_command_counts = [(py ''git status'', 1), (py ''git pull'', 1)],
             last_used = [(py ''git'', py ''2024-05-01T10:00:00+00:00'')],
             period_days = None\<rparr>"
  let ?rb = "\<lparr>total_commands = 2, unique_base_commands = 1,
             base_command_counts = [(py ''git'', 2)],
             full_command_counts = [(py ''git pull'', 1), (py ''git status'', 1)],
             last_used = [(py ''git'', py ''2024-05-01T12:00:00+02:00'')],
             period_days = None\<rparr>"
  have m: "mset (commands ?a) = mset (commands ?b)"
    by simp
  have a: "get_stats ?f ?isofmt 63850939200000000 None ?a = Inr ?ra"
    by code_simp
  have b: "get_stats ?f ?isofmt 63850939200000000 None ?b = Inr ?rb"
    by code_simp
  have "map_of (last_used ?ra) (py ''git'') \<noteq> map_of (last_used ?rb) (py ''git'')"
    by (simp add: py_def)
  then have "map_of (last_used ?ra) \<noteq> map_of (last_used ?rb)"
    by metis
  then have "\<not> stats_equal ?ra ?rb"
    by (simp only: stats_equal_def simp_thms)
  then have "\<not> same_result (get_stats ?f ?isofmt 63850939200000000 None ?a)
      (get_stats ?f ?isofmt 63850939200000000 None ?b)"
    unfolding a b by (simp add: same_result_def)
  with m a b show ?thesis
    by (intro conjI)
qed



text \<open>
  C2 (amended). No window is rejected as invalid. A window of zero days is no window:
  the statistics are those of all time, with \<open>period_days\<close> recorded as 0. A negative
  window of \<open>d\<close> days puts the cutoff \<open>-d\<close> days after \<open>now\<close>: as long as that
  cutoff is a \<open>datetime\<close> and the timestamps parse (to naive datetimes, as written
  by \<open>log_command\<close>), the statistics are returned, over the entries stamped at or
  after the cutoff.
\<close>

theorem get_stats_nonpositive_window:
  "get_stats f isofmt now (Some 0) t
     = map_sum id (\<lambda>st. st\<lparr>period_days := Some 0\<rparr>) (get_stats f isofmt now None t)
   \<and> (all_naive f (commands t) \<longrightarrow>
        (\<exists>st. get_stats f isofmt now (Some 0) t = Inr st
           \<and> total_commands st = length (commands t) \<and> period_days st = Some 0))
   \<and> (d < 0 \<and> - 999999999 \<le> d \<and> 0 \<le> now \<and> now - d * us_per_day < 3652059 * us_per_day
        \<and> all_naive f (commands t) \<longrightarrow>
        (\<exists>st. get_stats f isofmt now (Some d) t = Inr st
           \<and> total_commands st
              = length (filter (\<lambda>c. \<exists>n. f (timestamp c) = Some (Naive n)
                                  \<and> now - d * us_per_day \<le> n)
                  (commands t))
           \<and> base_command_counts st
              = Counter (map base_command
                  (filter (\<lambda>c. \<exists>n. f (timestamp c) = Some (Naive n)
                                  \<and> now - d * us_per_day \<le> n)
                     (commands t)))
           \<and> full_command_counts st
              = Counter (map command
                  (filter (\<lambda>c. \<exists>n. f (timestamp c) = Some (Naive n)
                                  \<and> now - d * us_per_day \<le> n)
                     (commands t)))
           \<and> period_days st = Some d))"
proof (intro conjI impI)
  have "commands_to_analyze f now (Some 0) t = commands_to_analyze f now None t"
    by (simp add: commands_to_analyze_def)
  then show "get_stats f isofmt now (Some 0) t
     = map_sum id (\<lambda>st. st\<lparr>period_days := Some 0\<rparr>) (get_stats f isofmt now None t)"
    by (simp add: get_stats_def Let_def split: sum.splits)
next
  assume a: "all_naive f (commands t)"
  have "commands_to_analyze f now (Some 0) t = Inr (commands t)"
    by (simp add: commands_to_analyze_def)
  from get_stats_Inr [OF this a, of isofmt]
  show "\<exists>st. get_stats f isofmt now (Some 0) t = Inr st
           \<and> total_commands st = length (commands t) \<and> period_days st = Some 0"
    by blast
next
  assume a: "d < 0 \<and> - 999999999 \<le> d \<and> 0 \<le> now \<and> now - d * us_per_day < 3652059 * us_per_day
        \<and> all_naive f (commands t)"
  let ?cutoff = "now - d * us_per_day"
  let ?cs = "filter (\<lambda>c. \<exists>n. f (timestamp c) = Some (Naive n) \<and> ?cutoff \<le> n) (commands t)"
  from a have an: "all_naive f (commands t)" by simp
  have td: "timedelta_days d = Inr (d * us_per_day)"
    using a by (simp add: timedelta_days_def)
  have "0 \<le> - d * us_per_day" using a by (simp add: us_per_day_def)
  then have "0 \<le> ?cutoff" using a by simp
  then have ds: "datetime_sub now (d * us_per_day) = Inr ?cutoff"
    using a by (simp add: datetime_sub_def Let_def)
  have parse: "\<forall>c\<in>set (commands t). f (timestamp c) \<noteq> None"
    using an by (auto simp: all_naive_iff)
  have "commands_to_analyze f now (Some d) t = Inr ?cs"
    using a td ds parse
    by (simp add: commands_to_analyze_def filter_since_eq [OF all_naive_no_aware [OF an]])
  moreover have "all_naive f ?cs"
    using an by (auto simp: all_naive_iff)
  ultimately show "\<exists>st. get_stats f isofmt now (Some d) t = Inr st
           \<and> total_commands st = length ?cs
           \<and> base_command_counts st = Counter (map base_command ?cs)
           \<and> full_command_counts st = Counter (map command ?cs)
           \<and> period_days st = Some d"
    using get_stats_Inr [of f now "Some d" t ?cs isofmt] by blast
qed

theorem get_stats_nonpositive_window_counterexample:
  "get_stats
     (map_of [(py ''2024-05-01T10:00:00'', Naive 63850154400000000)])
     (\<lambda>ts. py ''2024-05-01T10:00:00'')
     63850939200000000 (Some 0)
     \<lparr>commands =
        [\<lparr>command = py ''git status'', base_command = py ''git'',
           timestamp = py ''2024-05-01T10:00:00'', full_command = py ''git status''\<rparr>],
      commands_file = None\<rparr>
   = Inr \<lparr>total_commands = 1, unique_base_commands = 1,
          base_command_counts = [(py ''git'', 1)],
          full_command_counts = [(py ''git status'', 1)],
          last_used = [(py ''git'', py ''2024-05-01T10:00:00'')],
          period_days = Some 0\<rparr>
   \<and> get_stats
     (map_of [(py ''2024-05-01T10:00:00'', Naive 63850154400000000)])
     (\<lambda>ts. py ''2024-05-01T10:00:00'')
     63850939200000000 (Some (- 3))
     \<lparr>commands =
        [\<lparr>command = py ''git status'', base_command = py ''git'',
           timestamp = py ''2024-05-01T10:00:00'', full_command = py ''git status''\<rparr>],
      commands_file = None\<rparr>
   = Inr \<lparr>total_commands = 0, unique_base_commands = 0,
          base_command_counts = [],
          full_command_counts = [],
          last_used = [],
          period_days = Some (- 3)\<rparr>"
  by (simp add: get_stats_def commands_to_analyze_def Counter_def counter_add_def
      timedelta_days_def datetime_sub_def us_per_day_def Let_def)

theorem get_stats_nonpositive_window_witness:
  "(\<exists>st. get_stats
       (map_of [(py ''2024-05-01T10:00:00'', Naive 63850154400000000)])
       (\<lambda>ts. py ''2024-05-01T10:00:00'')
       63850939200000000 (Some 0)
       \<lparr>commands =
          [\<lparr>command = py ''git status'', base_command = py ''git'',
             timestamp = py ''2024-05-01T10:00:00'', full_command = py ''git status''\<rparr>],
        commands_file = None\<rparr> = Inr st
      \<and> total_commands st = 1
      \<and> period_days st = Some 0)
   \<and> (\<exists>st. get_stats
       (map_of [(py ''2024-05-01T10:00:00'', Naive 63850154400000000)])
       (\<lambda>ts. py ''2024-05-01T10:00:00'')
       63850939200000000 (Some (- 3))
       \<lparr>commands =
          [\<lparr>command = py ''git status'', base_command = py ''git'',
             timestamp = py ''2024-05-01T10:00:00'', full_command = py ''git status''\<rparr>],
        commands_file = None\<rparr> = Inr st
      \<and> total_commands st = 0
      \<and> base_command_counts st = []
      \<and> full_command_counts st = []
      \<and> period_days st = Some (- 3))"
proof -
  let ?f = "map_of [(py ''2024-05-01T10:00:00'', Naive 63850154400000000)]"
  let ?isofmt = "\<lambda>ts :: datetime. py ''2024-05-01T10:00:00''"
  let ?tr = "\<lparr>commands =
          [\<lparr>command = py ''git status'', base_command = py ''git'',
             timestamp = py ''2024-05-01T10:00:00'', full_command = py ''git status''\<rparr>],
        commands_file = None :: str option\<rparr>"
  have h1: "all_naive ?f (commands ?tr)"
    by (simp add: all_naive_def)
  have h2: "(- 3 :: int) < 0 \<and> - 999999999 \<le> (- 3 :: int) \<and> 0 \<le> (63850939200000000 :: int)
        \<and> 63850939200000000 - (- 3) * us_per_day < 3652059 * us_per_day
        \<and> all_naive ?f (commands ?tr)"
    by (simp add: us_per_day_def all_naive_def)
  have e: "filter (\<lambda>c. \<exists>n. ?f (timestamp c) = Some (Naive n)
                \<and> 63850939200000000 - (- 3) * us_per_day \<le> n) (commands ?tr) = []"
    by (simp add: us_per_day_def)
  note w = get_stats_nonpositive_window [of ?f ?isofmt 63850939200000000 ?tr "- 3"]
  note w1 = w [THEN conjunct2, THEN conjunct1, THEN mp, OF h1]
  note w2 = w [THEN conjunct2, THEN conjunct2, THEN mp, OF h2, unfolded e]
  from w1 have g1: "\<exists>st. get_stats ?f ?isofmt 63850939200000000 (Some 0) ?tr = Inr st
      \<and> total_commands st = 1 \<and> period_days st = Some 0"
    by simp
  from w2 have g2: "\<exists>st. get_stats ?f ?isofmt 63850939200000000 (Some (- 3)) ?tr = Inr st
      \<and> total_commands st = 0 \<and> base_command_counts st = [] \<and> full_command_counts st = []
      \<and> period_days st = Some (- 3)"
    by (simp add: Counter_def)
  from g1 g2 show ?thesis by (rule conjI)
qed

section \<open>Search: lemmas\<close>

lemma is_prefix_iff: "is_prefix q s \<longleftrightarrow> (\<exists>suf. s = q @ suf)"
  by (induction q s rule: is_prefix.induct) auto

lemma contains_iff: "contains s q \<longleftrightarrow> (\<exists>pre suf. s = pre @ q @ suf)"
proof (induction s)
  case Nil
  then show ?case by simp
next
  case (Cons c cs)
  show ?case
  proof
    assume "contains (c # cs) q"
    then consider "is_prefix q (c # cs)" | "contains cs q" by auto
    then show "\<exists>pre suf. c # cs = pre @ q @ suf"
    proof cases
      case 1
      then obtain suf where "c # cs = q @ suf" by (auto simp: is_prefix_iff)
      then have "c # cs = [] @ q @ suf" by simp
      then show ?thesis by blast
    next
      case 2
      with Cons.IH obtain pre suf where "cs = pre @ q @ suf" by blast
      then have "c # cs = (c # pre) @ q @ suf" by simp
      then show ?thesis by blast
    qed
  next
    assume "\<exists>pre suf. c # cs = pre @ q @ suf"
    then obtain pre suf where e: "c # cs = pre @ q @ suf" by blast
    show "contains (c # cs) q"
    proof (cases pre)
      case Nil
      with e have "is_prefix q (c # cs)" by (auto simp: is_prefix_iff)
      then show ?thesis by simp
    next
      case (Cons p ps)
      with e have "cs = ps @ q @ suf" by simp
      with Cons.IH have "contains cs q" by blast
      then show ?thesis by simp
    qed
  qed
qed

lemma map_of_group_add:
  "map_of (group_add g c) b =
     (if b = base_command c
      then Some (case map_of g b of None \<Rightarrow> [c] | Some cs \<Rightarrow> cs @ [c])
      else map_of g b)"
  by (simp add: group_add_def map_of_dict_set split: option.split)

lemma keys_group_add: "fst ` set (group_add g c) = insert (base_command c) (fst ` set g)"
  by (simp add: group_add_def set_keys_dict_set split: option.split)

lemma distinct_group_add: "distinct (map fst g) \<Longrightarrow> distinct (map fst (group_add g c))"
  by (simp add: group_add_def distinct_dict_set split: option.split)

lemma distinct_foldl_group_add:
  "distinct (map fst g) \<Longrightarrow> distinct (map fst (foldl group_add g ms))"
proof (induction ms arbitrary: g)
  case Nil
  then show ?case by simp
next
  case (Cons c ms)
  from Cons.prems have "distinct (map fst (group_add g c))" by (rule distinct_group_add)
  then show ?case using Cons.IH by simp
qed

lemma keys_foldl_group_add:
  "fst ` set (foldl group_add g ms) = fst ` set g \<union> base_command ` set ms"
proof (induction ms arbitrary: g)
  case Nil
  then show ?case by simp
next
  case (Cons c ms)
  show ?case by (simp add: Cons.IH keys_group_add)
qed

lemma map_of_foldl_group_add:
  "map_of (foldl group_add g ms) b =
     (case map_of g b of
        None \<Rightarrow> if b \<in> base_command ` set ms
                then Some (filter (\<lambda>c. base_command c = b) ms) else None
      | Some cs \<Rightarrow> Some (cs @ filter (\<lambda>c. base_command c = b) ms))"
proof (induction ms arbitrary: g)
  case Nil
  then show ?case by (simp split: option.split)
next
  case (Cons c ms)
  show ?case
    by (auto simp add: Cons.IH map_of_group_add split: option.split)
qed

lemma distinct_grouped: "distinct (map fst (grouped ms))"
  by (simp add: grouped_def distinct_foldl_group_add)

lemma keys_grouped: "fst ` set (grouped ms) = base_command ` set ms"
  by (simp add: grouped_def keys_foldl_group_add)

lemma map_of_grouped:
  "map_of (grouped ms) b =
     (if b \<in> base_command ` set ms then Some (filter (\<lambda>c. base_command c = b) ms) else None)"
  by (simp add: grouped_def map_of_foldl_group_add)

lemma grouped_members:
  assumes "(b, cs) \<in> set (grouped ms)"
  shows "cs = filter (\<lambda>c. base_command c = b) ms" and "cs \<noteq> []"
proof -
  from assms have m: "map_of (grouped ms) b = Some cs"
    using distinct_grouped by simp
  then have b: "b \<in> base_command ` set ms"
    by (simp add: map_of_grouped split: if_splits)
  from m show "cs = filter (\<lambda>c. base_command c = b) ms"
    by (simp add: map_of_grouped split: if_splits)
  then show "cs \<noteq> []" using b by (auto simp: filter_empty_conv)
qed

lemma set_sorted_desc: "set (sorted_desc f xs) = set xs"
  by (simp add: sorted_desc_def)

lemma mset_sorted_desc: "mset (sorted_desc f xs) = mset xs"
  by (simp add: sorted_desc_def)

lemma distinct_keys_sorted_desc:
  "distinct (map fst (sorted_desc f xs)) = distinct (map fst xs)"
proof -
  have "mset (map fst (sorted_desc f xs)) = mset (map fst xs)"
    by (simp add: mset_sorted_desc)
  then show ?thesis by (rule mset_eq_imp_distinct_iff)
qed

lemma sorted_desc_descending:
  "sorted_wrt (\<lambda>x y. f y \<le> f x) (sorted_desc f xs)"
proof -
  have "sorted (map (\<lambda>x. - int (f x)) (sorted_desc f xs))"
    unfolding sorted_desc_def by (rule sorted_sort_key)
  then show ?thesis by (simp add: sorted_map)
qed

lemma sorted_desc_stable:
  "filter (\<lambda>x. f x = k) (sorted_desc f xs) = filter (\<lambda>x. f x = k) xs"
proof -
  have "filter (\<lambda>x. - int (f x) = - int k) (sort_key (\<lambda>x. - int (f x)) xs)
      = filter (\<lambda>x. - int (f x) = - int k) xs"
    by (rule sort_key_stable)
  then show ?thesis by (simp add: sorted_desc_def)
qed

lemma unique_commands_props:
  "sorted (unique_commands cs)" "distinct (unique_commands cs)"
  "set (unique_commands cs) = command ` set cs"
  "length (unique_commands cs) = card (command ` set cs)"
proof -
  show "sorted (unique_commands cs)" by (simp add: unique_commands_def)
  show d: "distinct (unique_commands cs)" by (simp add: unique_commands_def)
  show s: "set (unique_commands cs) = command ` set cs" by (simp add: unique_commands_def)
  show "length (unique_commands cs) = card (command ` set cs)"
    using distinct_card [OF d] s by simp
qed

lemma lower_py: "lower unicode_lower (py s) = map lower_latin1 (py s)"
proof -
  have "of_char c < (256 :: nat)" for c :: char
    using of_char_mod_256 [of c, where ?'a = nat] by (metis mod_less_divisor zero_less_numeral)
  then have "list_all (\<lambda>c. c < 256) (py s)"
    by (simp add: py_def list_all_iff)
  then show ?thesis by (simp add: lower_def)
qed

section \<open>Claims about search\<close>

text \<open>
  C7. An entry matches when the lower-cased query occurs as a contiguous block in its
  lower-cased command or base command; lower-casing maps \<open>A\<close> to \<open>Z\<close> to \<open>a\<close> to
  \<open>z\<close>, so the query \<open>GIT\<close> finds \<open>git status\<close> and the query \<open>status\<close> finds
  \<open>Git Status\<close>. The matches are grouped by base command: one group for each base
  command among them, holding all the matches with that base command. The groups are
  printed in descending order of their number of matches. For a group the distinct
  commands are sorted ascending and the first five of them are printed; when there are
  more than five, a last line gives the number of the others. With the entries
  \<open>git status\<close>, \<open>git add .\<close> and \<open>ls\<close>, the query \<open>git\<close> prints the one group
  \<open>git\<close> with 2 occurrences, and nothing for \<open>ls\<close>.
\<close>

theorem search_commands_groups:
  "(c \<in> set (matching ul query t) \<longleftrightarrow>
      c \<in> set (commands t)
      \<and> ((\<exists>pre suf. lower ul (command c) = pre @ lower ul query @ suf)
         \<or> (\<exists>pre suf. lower ul (base_command c) = pre @ lower ul query @ suf)))
   \<and> lower ul (py ''Git Status'') = py ''git status''
   \<and> lower ul (py ''GIT'') = py ''git''
   \<and> distinct (map fst (sorted_desc (\<lambda>g. length (snd g)) (grouped (matching ul query t))))
   \<and> fst ` set (sorted_desc (\<lambda>g. length (snd g)) (grouped (matching ul query t)))
        = base_command ` set (matching ul query t)
   \<and> (\<forall>g\<in>set (sorted_desc (\<lambda>g. length (snd g)) (grouped (matching ul query t))).
        snd g = filter (\<lambda>c. base_command c = fst g) (matching ul query t) \<and> snd g \<noteq> [])
   \<and> sorted_wrt (\<lambda>g h. length (snd h) \<le> length (snd g))
        (sorted_desc (\<lambda>g. length (snd g)) (grouped (matching ul query t)))
   \<and> sorted (unique_commands cs) \<and> distinct (unique_commands cs)
   \<and> set (unique_commands cs) = command ` set cs
   \<and> group_lines (b, cs)
        = [newline # b @ py '' ('' @ str_nat (length cs) @ py '' occurrences):'']
          @ map (\<lambda>full. py ''  '' @ full) (take 5 (unique_commands cs))
          @ (if 5 < card (command ` set cs)
             then [py ''  ... and '' @ str_nat (card (command ` set cs) - 5) @ py '' more'']
             else [])
   \<and> search_commands ul query t
        = (if matching ul query t = []
           then [py ''No commands found matching '' @ 39 # query @ [39]]
           else [newline # py ''Commands matching '' @ 39 # query @ 39 # py '':'',
                 replicate 70 61]
                @ concat (map group_lines
                    (sorted_desc (\<lambda>g. length (snd g)) (grouped (matching ul query t)))))
   \<and> search_commands ul (py ''git'')
        \<lparr>commands =
           [\<lparr>command = py ''git status'', base_command = py ''git'',
              timestamp = py ''2024-05-01T10:00:00'', full_command = py ''git status''\<rparr>,
            \<lparr>command = py ''git add .'', base_command = py ''git'',
              timestamp = py ''2024-05-01T10:05:00'', full_command = py ''git add .''\<rparr>,
            \<lparr>command = py ''ls'', base_command = py ''ls'',
              timestamp = py ''2024-05-01T10:06:00'', full_command = py ''ls''\<rparr>],
         commands_file = None\<rparr>
        = [newline # py ''Commands matching '' @ 39 # py ''git'' @ 39 # py '':'',
           replicate 70 61,
           newline # py ''git (2 occurrences):'',
           py ''  git add .'',
           py ''  git status'']
   \<and> search_commands ul (py ''GIT'')
        \<lparr>commands =
           [\<lparr>command = py ''git status'', base_command = py ''git'',
              timestamp = py ''2024-05-01T10:00:00'', full_command = py ''git status''\<rparr>,
            \<lparr>command = py ''git add .'', base_command = py ''git'',
              timestamp = py ''2024-05-01T10:05:00'', full_command = py ''git add .''\<rparr>,
            \<lparr>command = py ''ls'', base_command = py ''ls'',
              timestamp = py ''2024-05-01T10:06:00'', full_command = py ''ls''\<rparr>],
         commands_file = None\<rparr>
        = [newline # py ''Commands matching '' @ 39 # py ''GIT'' @ 39 # py '':'',
           replicate 70 61,
           newline # py ''git (2 occurrences):'',
           py ''  git add .'',
           py ''  git status'']
   \<and> search_commands ul (py ''status'')
        \<lparr>commands =
           [\<lparr>command = py ''Git Status'', base_command = py ''Git'',
              timestamp = py ''2024-05-01T10:00:00'', full_command = py ''Git Status''\<rparr>,
            \<lparr>command = py ''ls'', base_command = py ''ls'',
              timestamp = py ''2024-05-01T10:06:00'', full_command = py ''ls''\<rparr>],
         commands_file = None\<rparr>
        = [newline # py ''Commands matching '' @ 39 # py ''status'' @ 39 # py '':'',
           replicate 70 61,
           newline # py ''Git (1 occurrences):'',
           py ''  Git Status'']"
proof (intro conjI)
  show "c \<in> set (matching ul query t) \<longleftrightarrow>
      c \<in> set (commands t)
      \<and> ((\<exists>pre suf. lower ul (command c) = pre @ lower ul query @ suf)
         \<or> (\<exists>pre suf. lower ul (base_command c) = pre @ lower ul query @ suf))"
    by (simp add: matching_def matches_def contains_iff)
  have "map lower_latin1 (py ''Git Status'') = py ''git status''"
    by code_simp
  then show "lower ul (py ''Git Status'') = py ''git status''"
    by (simp only: lower_py)
  have "map lower_latin1 (py ''GIT'') = py ''git''"
    by code_simp
  then show "lower ul (py ''GIT'') = py ''git''"
    by (simp only: lower_py)
  show "distinct (map fst (sorted_desc (\<lambda>g. length (snd g)) (grouped (matching ul query t))))"
    by (simp add: distinct_keys_sorted_desc distinct_grouped)
  show "fst ` set (sorted_desc (\<lambda>g. length (snd g)) (grouped (matching ul query t)))
        = base_command ` set (matching ul query t)"
    by (simp add: set_sorted_desc keys_grouped)
  show "\<forall>g\<in>set (sorted_desc (\<lambda>g. length (snd g)) (grouped (matching ul query t))).
        snd g = filter (\<lambda>c. base_command c = fst g) (matching ul query t) \<and> snd g \<noteq> []"
    unfolding set_sorted_desc using grouped_members [of _ _ "matching ul query t"] by auto
  show "sorted_wrt (\<lambda>g h. length (snd h) \<le> length (snd g))
        (sorted_desc (\<lambda>g. length (snd g)) (grouped (matching ul query t)))"
    by (rule sorted_desc_descending)
  show "sorted (unique_commands cs)" "distinct (unique_commands cs)"
    "set (unique_commands cs) = command ` set cs"
    by (rule unique_commands_props)+
  show "group_lines (b, cs)
        = [newline # b @ py '' ('' @ str_nat (length cs) @ py '' occurrences):'']
          @ map (\<lambda>full. py ''  '' @ full) (take 5 (unique_commands cs))
          @ (if 5 < card (command ` set cs)
             then [py ''  ... and '' @ str_nat (card (command ` set cs) - 5) @ py '' more'']
             else [])"
    by (simp add: group_lines_def Let_def unique_commands_props(4))
  show "search_commands ul query t
        = (if matching ul query t = []
           then [py ''No commands found matching '' @ 39 # query @ [39]]
           else [newline # py ''Commands matching '' @ 39 # query @ 39 # py '':'',
                 replicate 70 61]
                @ concat (map group_lines
                    (sorted_desc (\<lambda>g. length (snd g)) (grouped (matching ul query t)))))"
    by (simp add: search_commands_def Let_def)
  show "search_commands ul (py ''git'')
        \<lparr>commands =
           [\<lparr>command = py ''git status'', base_command = py ''git'',
              timestamp = py ''2024-05-01T10:00:00'', full_command = py ''git status''\<rparr>,
            \<lparr>command = py ''git add .'', base_command = py ''git'',
              timestamp = py ''2024-05-01T10:05:00'', full_command = py ''git add .''\<rparr>,
            \<lparr>command = py ''ls'', base_command = py ''ls'',
              timestamp = py ''2024-05-01T10:06:00'', full_command = py ''ls''\<rparr>],
         commands_file = None\<rparr>
        = [newline # py ''Commands matching '' @ 39 # py ''git'' @ 39 # py '':'',
           replicate 70 61,
           newline # py ''git (2 occurrences):'',
           py ''  git add .'',
           py ''  git status'']"
    by code_simp
  show "search_commands ul (py ''GIT'')
        \<lparr>commands =
           [\<lparr>command = py ''git status'', base_command = py ''git'',
              timestamp = py ''2024-05-01T10:00:00'', full_command = py ''git status''\<rparr>,
            \<lparr>command = py ''git add .'', base_command = py ''git'',
              timestamp = py ''2024-05-01T10:05:00'', full_command = py ''git add .''\<rparr>,
            \<lparr>command = py ''ls'', base_command = py ''ls'',
              timestamp = py ''2024-05-01T10:06:00'', full_command = py ''ls''\<rparr>],
         commands_file = None\<rparr>
        = [newline # py ''Commands matching '' @ 39 # py ''GIT'' @ 39 # py '':'',
           replicate 70 61,
           newline # py ''git (2 occurrences):'',
           py ''  git add .'',
           py ''  git status'']"
    by code_simp
  show "search_commands ul (py ''status'')
        \<lparr>commands =
           [\<lparr>command = py ''Git Status'', base_command = py ''Git'',
              timestamp = py ''2024-05-01T10:00:00'', full_command = py ''Git Status''\<rparr>,
            \<lparr>command = py ''ls'', base_command = py ''ls'',
              timestamp = py ''2024-05-01T10:06:00'', full_command = py ''ls''\<rparr>],
         commands_file = None\<rparr>
        = [newline # py ''Commands matching '' @ 39 # py ''status'' @ 39 # py '':'',
           replicate 70 61,
           newline # py ''Git (1 occurrences):'',
           py ''  Git Status'']"
    by code_simp
qed

theorem search_commands_groups_witness:
  "(py ''git'',
      [\<lparr>command = py ''git status'', base_command = py ''git'',
          timestamp = py ''2024-05-01T10:00:00'', full_command = py ''git status''\<rparr>,
       \<lparr>command = py ''git add .'', base_command = py ''git'',
          timestamp = py ''2024-05-01T10:05:00'', full_command = py ''git add .''\<rparr>])
     \<in> set (sorted_desc (\<lambda>g. length (snd g)) (grouped (matching (\<lambda>s. s) (py ''GIT'')
        \<lparr>commands =
           [\<lparr>command = py ''git status'', base_command = py ''git'',
              timestamp = py ''2024-05-01T10:00:00'', full_command = py ''git status''\<rparr>,
            \<lparr>command = py ''git add .'', base_command = py ''git'',
              timestamp = py ''2024-05-01T10:05:00'', full_command = py ''git add .''\<rparr>,
            \<lparr>command = py ''ls'', base_command = py ''ls'',
              timestamp = py ''2024-05-01T10:06:00'', full_command = py ''ls''\<rparr>],
         commands_file = None\<rparr>)))
   \<and> [\<lparr>command = py ''git status'', base_command = py ''git'',
          timestamp = py ''2024-05-01T10:00:00'', full_command = py ''git status''\<rparr>,
       \<lparr>command = py ''git add .'', base_command = py ''git'',
          timestamp = py ''2024-05-01T10:05:00'', full_command = py ''git add .''\<rparr>]
     = filter (\<lambda>c. base_command c = py ''git'') (matching (\<lambda>s. s) (py ''GIT'')
        \<lparr>commands =
           [\<lparr>command = py ''git status'', base_command = py ''git'',
              timestamp = py ''2024-05-01T10:00:00'', full_command = py ''git status''\<rparr>,
            \<lparr>command = py ''git add .'', base_command = py ''git'',
              timestamp = py ''2024-05-01T10:05:00'', full_command = py ''git add .''\<rparr>,
            \<lparr>command = py ''ls'', base_command = py ''ls'',
              timestamp = py ''2024-05-01T10:06:00'', full_command = py ''ls''\<rparr>],
         commands_file = None\<rparr>)"
proof -
  let ?e1 = "\<lparr>command = py ''git status'', base_command = py ''git'',
          timestamp = py ''2024-05-01T10:00:00'', full_command = py ''git status''\<rparr>"
  let ?e2 = "\<lparr>command = py ''git add .'', base_command = py ''git'',
          timestamp = py ''2024-05-01T10:05:00'', full_command = py ''git add .''\<rparr>"
  let ?e3 = "\<lparr>command = py ''ls'', base_command = py ''ls'',
          timestamp = py ''2024-05-01T10:06:00'', full_command = py ''ls''\<rparr>"
  let ?tr = "\<lparr>commands = [?e1, ?e2, ?e3], commands_file = None :: str option\<rparr>"
  have m: "(py ''git'', [?e1, ?e2])
      \<in> set (sorted_desc (\<lambda>g. length (snd g)) (grouped (matching (\<lambda>s. s) (py ''GIT'') ?tr)))"
    by code_simp
  note s = search_commands_groups [of ?e1 "\<lambda>s. s" "py ''GIT''" ?tr "[]" "[]"]
  note members = s [THEN conjunct2, THEN conjunct2, THEN conjunct2, THEN conjunct2,
      THEN conjunct2, THEN conjunct1]
  from bspec [OF members m]
  have "[?e1, ?e2] = filter (\<lambda>c. base_command c = py ''git'') (matching (\<lambda>s. s) (py ''GIT'') ?tr)"
    by simp
  with m show ?thesis by (rule conjI)
qed

section \<open>Claims about the CSV export\<close>

lemma Counter_member:
  "k \<in> set ks \<Longrightarrow> (k, count_list ks k) \<in> set (Counter ks)"
  by (rule map_of_SomeD) (simp add: map_of_Counter)

text \<open>
  C10. The CSV export quotes and escapes nothing. When every timestamp parses (to a
  naive datetime, as written by \<open>log_command\<close>), the export is the header followed by
  one row for each base command, and the row of the base command of any stored entry is
  that base command as it is, its count, the formatted percentage and the last-used
  time, joined by commas (code point 44). The row has at least three commas more than
  the base command, so with a comma in the base command it splits into more than four
  comma-separated fields.
\<close>

theorem export_stats_csv_unquoted:
  assumes "all_naive f (commands t)"
    and "e \<in> set (commands t)"
  shows "\<exists>st row.
      get_stats f isofmt now None t = Inr st
      \<and> export_stats_csv f isofmt format_2f now t = Inr (join_lines (csv_lines format_2f st))
      \<and> hd (csv_lines format_2f st) = py ''Command,Count,Percentage,Last Used''
      \<and> row \<in> set (tl (csv_lines format_2f st))
      \<and> row = base_command e
          @ py '','' @ str_nat (count_list (map base_command (commands t)) (base_command e))
          @ py '','' @ format_2f (count_list (map base_command (commands t)) (base_command e))
                      (length (commands t))
          @ py '','' @ isofmt (Naive (Max (used_times f (commands t) (base_command e))))
      \<and> count_list (base_command e) 44 + 3 \<le> count_list row 44
      \<and> (44 \<in> set (base_command e) \<longrightarrow> 4 < count_list row 44 + 1)"
proof -
  let ?cs = "commands t"
  let ?b = "base_command e"
  let ?n = "count_list (map base_command ?cs) ?b"
  let ?row = "?b @ py '','' @ str_nat ?n @ py '','' @ format_2f ?n (length ?cs)
      @ py '','' @ isofmt (Naive (Max (used_times f ?cs ?b)))"
  have cta: "commands_to_analyze f now None t = Inr ?cs"
    by (simp add: commands_to_analyze_def)
  from get_stats_Inr [OF cta assms(1), of isofmt] obtain st where
    st: "get_stats f isofmt now None t = Inr st"
    and tot: "total_commands st = length ?cs"
    and bc: "base_command_counts st = Counter (map base_command ?cs)"
    and lu: "\<And>b. map_of (last_used st) b =
           (if used_times f ?cs b = {} then None
            else Some (isofmt (Naive (Max (used_times f ?cs b)))))"
    by blast
  from assms obtain ts where ts: "f (timestamp e) = Some (Naive ts)"
    by (auto simp: all_naive_iff)
  with assms(2) have "ts \<in> used_times f ?cs ?b" by (auto simp: used_times_def)
  then have last: "map_of (last_used st) ?b = Some (isofmt (Naive (Max (used_times f ?cs ?b))))"
    by (auto simp: lu)
  from assms(2) have pos: "?cs \<noteq> []" by auto
  have row: "csv_row format_2f st (?b, ?n) = ?row"
    by (simp add: csv_row_def Let_def tot pos last)
  from assms(2) have "(?b, ?n) \<in> set (Counter (map base_command ?cs))"
    by (intro Counter_member) simp
  then have "(?b, ?n) \<in> set (sorted_desc snd (base_command_counts st))"
    by (simp add: set_sorted_desc bc)
  then have "csv_row format_2f st (?b, ?n) \<in> set (tl (csv_lines format_2f st))"
    by (simp add: csv_lines_def)
  then have mem: "?row \<in> set (tl (csv_lines format_2f st))"
    by (simp only: row)
  have comma: "py '','' = [44]"
    by (simp add: py_def)
  have commas: "count_list ?b 44 + 3 \<le> count_list ?row 44"
    by (simp add: comma)
  have "44 \<in> set ?b \<Longrightarrow> 0 < count_list ?b 44"
    using count_list_0_iff [of ?b 44] by auto
  with commas have fields: "44 \<in> set ?b \<longrightarrow> 4 < count_list ?row 44 + 1"
    by auto
  have ex: "export_stats_csv f isofmt format_2f now t = Inr (join_lines (csv_lines format_2f st))"
    by (simp add: export_stats_csv_def st)
  have hd: "hd (csv_lines format_2f st) = py ''Command,Count,Percentage,Last Used''"
    by (simp add: csv_lines_def)
  from st ex hd mem commas fields show ?thesis by blast
qed

theorem export_stats_csv_unquoted_witness:
  "\<exists>st row.
      get_stats (map_of [(py ''2024-05-01T10:00:00'', Naive 63850154400000000)])
        (\<lambda>ts. py ''2024-05-01T10:00:00'') 63850939200000000 None
        \<lparr>commands =
           [\<lparr>command = py ''echo,hi there'', base_command = py ''echo,hi'',
              timestamp = py ''2024-05-01T10:00:00'', full_command = py ''echo,hi there''\<rparr>],
         commands_file = None\<rparr> = Inr st
      \<and> row \<in> set (tl (csv_lines (\<lambda>count total. py ''100.00'') st))
      \<and> row = py ''echo,hi,1,100.00,2024-05-01T10:00:00''
      \<and> 4 < count_list row 44 + 1"
proof -
  let ?f = "map_of [(py ''2024-05-01T10:00:00'', Naive 63850154400000000)]"
  let ?isofmt = "\<lambda>ts :: datetime. py ''2024-05-01T10:00:00''"
  let ?fmt = "\<lambda>(count :: nat) (total :: nat). py ''100.00''"
  let ?e = "\<lparr>command = py ''echo,hi there'', base_command = py ''echo,hi'',
              timestamp = py ''2024-05-01T10:00:00'', full_command = py ''echo,hi there''\<rparr>"
  let ?tr = "\<lparr>commands = [?e], commands_file = None :: str option\<rparr>"
  have h1: "all_naive ?f (commands ?tr)" by (simp add: all_naive_def)
  have h2: "?e \<in> set (commands ?tr)" by simp
  from export_stats_csv_unquoted [OF h1 h2, of ?isofmt 63850939200000000 ?fmt]
  obtain st row where
    st: "get_stats ?f ?isofmt 63850939200000000 None ?tr = Inr st"
    and mem: "row \<in> set (tl (csv_lines ?fmt st))"
    and row: "row = base_command ?e
          @ py '','' @ str_nat (count_list (map base_command (commands ?tr)) (base_command ?e))
          @ py '','' @ ?fmt (count_list (map base_command (commands ?tr)) (base_command ?e))
                      (length (commands ?tr))
          @ py '','' @ ?isofmt (Naive (Max (used_times ?f (commands ?tr) (base_command ?e))))"
    and fields: "44 \<in> set (base_command ?e) \<longrightarrow> 4 < count_list row 44 + 1"
    by blast
  have n: "str_nat (count_list (map base_command (commands ?tr)) (base_command ?e)) = py ''1''"
    by code_simp
  have r0: "py ''echo,hi'' @ py '','' @ py ''1'' @ py '','' @ py ''100.00'' @ py '',''
      @ py ''2024-05-01T10:00:00'' = py ''echo,hi,1,100.00,2024-05-01T10:00:00''"
    by (simp add: py_def)
  from row have r: "row = py ''echo,hi,1,100.00,2024-05-01T10:00:00''"
    unfolding n by (simp add: r0)
  have "44 \<in> set (base_command ?e)" by (simp add: py_def)
  with fields have "4 < count_list row 44 + 1" by simp
  with st mem r show ?thesis by blast
qed

section \<open>Decoding what was written\<close>

lemma hexval_hexdigit: "d < 16 \<Longrightarrow> hexval (hexdigit d) = Some d"
  by (auto simp: hexval_def hexdigit_def)

lemma hex4_value:
  fixes n :: nat
  assumes "n < 65536"
  shows "((n div 4096 mod 16 * 16 + n div 256 mod 16) * 16 + n div 16 mod 16) * 16 + n mod 16 = n"
proof -
  have a: "n div 4096 mod 16 = n div 256 div 16"
    using assms by (simp add: div_mult2_eq [symmetric] less_mult_imp_div_less)
  have b: "n div 256 = n div 16 div 16"
    by (simp add: div_mult2_eq [symmetric])
  have s: "x div 16 * 16 + x mod 16 = x" for x :: nat
    by simp
  show ?thesis
    unfolding a by (simp only: s b)
qed

lemma length_hex4_digits: "length (hex4_digits n) = 4"
  by (simp add: hex4_digits_def)

lemma read_hex4_digits:
  assumes "n < 65536"
  shows "read_hex4 (hex4_digits n @ R) = Inr (n, R)"
proof -
  have d: "hexval (hexdigit (n div 4096 mod 16)) = Some (n div 4096 mod 16)"
    "hexval (hexdigit (n div 256 mod 16)) = Some (n div 256 mod 16)"
    "hexval (hexdigit (n div 16 mod 16)) = Some (n div 16 mod 16)"
    "hexval (hexdigit (n mod 16)) = Some (n mod 16)"
    by (rule hexval_hexdigit, simp)+
  have "hex4 (hexdigit (n div 4096 mod 16)) (hexdigit (n div 256 mod 16))
      (hexdigit (n div 16 mod 16)) (hexdigit (n mod 16)) = Some n"
    unfolding hex4_def d by (simp only: bind.bind_lunit hex4_value [OF assms])
  then show ?thesis
    unfolding read_hex4_def hex4_digits_def by (simp only: append.simps list.case option.case)
qed

lemma py_u: "py ''u'' = [117]"
  by (simp add: py_def)

lemma consed_Inr: "consed c (Inr (s, r)) = Inr (c # s, r)"
  by (simp add: consed_def)

lemma scan_string_bslash:
  "read_escape cs = Inr (ch, rest) \<Longrightarrow> scan_string (bslash # cs) = consed ch (scan_string rest)"
  by (simp add: scan_string.simps)

lemma read_escape_u:
  "read_hex4 s = Inr (u, rest) \<Longrightarrow>
   read_escape (117 # s) =
     (if 0xD800 \<le> u \<and> u \<le> 0xDBFF then
        and_then (read_low rest) (\<lambda>low.
          case low of
            None \<Rightarrow> Inr (u, rest)
          | Some (u2, rest2) \<Rightarrow> Inr (0x10000 + (u - 0xD800) * 1024 + (u2 - 0xDC00), rest2))
      else Inr (u, rest))"
  by (simp add: read_escape_def and_then_def)

text \<open>An escape \<open>\\uxxxx\<close> of a code point that is not a high surrogate.\<close>

lemma scan_string_u:
  assumes "u < 65536" and "\<not> (0xD800 \<le> u \<and> u \<le> 0xDBFF)"
  shows "scan_string (bslash # py ''u'' @ hex4_digits u @ R) = consed u (scan_string R)"
proof -
  have "read_escape (117 # hex4_digits u @ R) = Inr (u, R)"
    unfolding read_escape_u [OF read_hex4_digits [OF assms(1)]] using assms(2) by auto
  then show ?thesis
    unfolding py_u by (simp only: append.simps scan_string_bslash)
qed

text \<open>The escape of a high surrogate that no escape of a low surrogate follows.\<close>

lemma scan_string_high:
  assumes "0xD800 \<le> u" and "u \<le> 0xDBFF" and "read_low R = Inr None"
  shows "scan_string (bslash # py ''u'' @ hex4_digits u @ R) = consed u (scan_string R)"
proof -
  from assms(2) have u: "u < 65536" by simp
  have "read_escape (117 # hex4_digits u @ R) = Inr (u, R)"
    unfolding read_escape_u [OF read_hex4_digits [OF u]] using assms
    by (simp add: and_then_def)
  then show ?thesis
    unfolding py_u by (simp only: append.simps scan_string_bslash)
qed

text \<open>The escapes of a high and of a low surrogate in a row.\<close>

lemma read_low_u:
  assumes "lo < 65536"
  shows "read_low (bslash # 117 # hex4_digits lo @ R) =
     (if 0xDC00 \<le> lo \<and> lo \<le> 0xDFFF then Inr (Some (lo, R)) else Inr None)"
proof -
  have "4 \<le> length (hex4_digits lo @ R)"
    by (simp add: length_hex4_digits)
  then show ?thesis
    by (simp add: read_low_def and_then_def read_hex4_digits [OF assms])
qed

lemma scan_string_pair:
  assumes "0xD800 \<le> hi" and "hi \<le> 0xDBFF" and "0xDC00 \<le> lo" and "lo \<le> 0xDFFF"
  shows "scan_string
      (bslash # py ''u'' @ hex4_digits hi @ bslash # py ''u'' @ hex4_digits lo @ R)
     = consed (0x10000 + (hi - 0xD800) * 1024 + (lo - 0xDC00)) (scan_string R)"
proof -
  from assms have hi: "hi < 65536" and lo: "lo < 65536" by simp_all
  have low: "read_low (bslash # 117 # hex4_digits lo @ R) = Inr (Some (lo, R))"
    unfolding read_low_u [OF lo] using assms by simp
  have "read_escape (117 # hex4_digits hi @ bslash # 117 # hex4_digits lo @ R)
      = Inr (0x10000 + (hi - 0xD800) * 1024 + (lo - 0xDC00), R)"
    unfolding read_escape_u [OF read_hex4_digits [OF hi]] low using assms
    by (simp add: and_then_def)
  then show ?thesis
    unfolding py_u by (simp only: append.simps scan_string_bslash)
qed


lemma read_escape_short:
  "e \<noteq> 117 \<Longrightarrow> unescape e = Some ch \<Longrightarrow> read_escape (e # s') = Inr (ch, s')"
  by (simp add: read_escape_def)

lemma scan_string_plain:
  "c \<noteq> 34 \<Longrightarrow> c \<noteq> 92 \<Longrightarrow> 32 \<le> c \<Longrightarrow> scan_string (c # R) = consed c (scan_string R)"
  by (simp add: scan_string.simps)

lemma surrogate_pair_of:
  fixes c :: nat
  assumes "0x10000 \<le> c" and "c < 0x110000"
  defines "hi \<equiv> 0xD800 + (c - 0x10000) div 1024 mod 1024"
    and "lo \<equiv> 0xDC00 + (c - 0x10000) mod 1024"
  shows "0xD800 \<le> hi" "hi \<le> 0xDBFF" "0xDC00 \<le> lo" "lo \<le> 0xDFFF"
    "0x10000 + (hi - 0xD800) * 1024 + (lo - 0xDC00) = c"
proof -
  define v where "v = c - 0x10000"
  have m: "v div 1024 mod 1024 < 1024" "v mod 1024 < 1024" by simp_all
  show "0xD800 \<le> hi" "0xDC00 \<le> lo"
    by (simp_all add: hi_def lo_def)
  show "hi \<le> 0xDBFF" "lo \<le> 0xDFFF"
    using m unfolding hi_def lo_def v_def [symmetric] by linarith+
  from assms(2) have "v < 1024 * 1024" by (simp add: v_def)
  then have "v div 1024 < 1024" by (simp add: less_mult_imp_div_less)
  then have d: "v div 1024 mod 1024 = v div 1024" by simp
  have "hi - 0xD800 = v div 1024" "lo - 0xDC00 = v mod 1024"
    unfolding hi_def lo_def v_def [symmetric] d by simp_all
  then have "0x10000 + (hi - 0xD800) * 1024 + (lo - 0xDC00) = 0x10000 + v"
    by simp
  also have "\<dots> = c" using assms(1) by (simp add: v_def)
  finally show "0x10000 + (hi - 0xD800) * 1024 + (lo - 0xDC00) = c" .
qed

text \<open>
  What the decoder makes of the escaped form of one code point: that code point. For a
  high surrogate this needs the rest of the text not to go on with the escape of a low
  surrogate.
\<close>

lemma scan_string_escape_char:
  assumes "c < 0x110000"
    and "0xD800 \<le> c \<and> c \<le> 0xDBFF \<longrightarrow> read_low R = Inr None"
  shows "scan_string (escape_char c @ R) = consed c (scan_string R)"
proof -
  consider "c = 34" | "c = 92" | "c = 8" | "c = 12" | "c = 10" | "c = 13" | "c = 9"
    | (plain) "c \<notin> {34, 92, 8, 12, 10, 13, 9}" "32 \<le> c" "c \<le> 126"
    | (u) "c \<notin> {34, 92, 8, 12, 10, 13, 9}" "\<not> (32 \<le> c \<and> c \<le> 126)" "c < 0x10000"
    | (pair) "0x10000 \<le> c"
    by fastforce
  then show ?thesis
  proof cases
    case 1
    then show ?thesis
      by (simp add: escape_char_def scan_string_bslash read_escape_short unescape_def)
  next
    case 2
    then show ?thesis
      by (simp add: escape_char_def scan_string_bslash read_escape_short unescape_def)
  next
    case 3
    then show ?thesis
      by (simp add: escape_char_def py_def scan_string_bslash read_escape_short unescape_def)
  next
    case 4
    then show ?thesis
      by (simp add: escape_char_def py_def scan_string_bslash read_escape_short unescape_def)
  next
    case 5
    then show ?thesis
      by (simp add: escape_char_def py_def scan_string_bslash read_escape_short unescape_def)
  next
    case 6
    then show ?thesis
      by (simp add: escape_char_def py_def scan_string_bslash read_escape_short unescape_def)
  next
    case 7
    then show ?thesis
      by (simp add: escape_char_def py_def scan_string_bslash read_escape_short unescape_def)
  next
    case plain
    then have "escape_char c = [c]"
      by (simp add: escape_char_def)
    then show ?thesis using plain by (simp add: scan_string_plain)
  next
    case u
    then have e: "escape_char c = bslash # py ''u'' @ hex4_digits c"
      by (simp add: escape_char_def)
    show ?thesis
    proof (cases "0xD800 \<le> c \<and> c \<le> 0xDBFF")
      case True
      with assms(2) have "read_low R = Inr None" by simp
      with True show ?thesis
        unfolding e using scan_string_high [of c R] by simp
    next
      case False
      with u(3) show ?thesis
        unfolding e using scan_string_u [of c R] by simp
    qed
  next
    case pair
    let ?hi = "0xD800 + (c - 0x10000) div 1024 mod 1024"
    let ?lo = "0xDC00 + (c - 0x10000) mod 1024"
    from pair have e: "escape_char c
        = bslash # py ''u'' @ hex4_digits ?hi @ bslash # py ''u'' @ hex4_digits ?lo"
      by (simp add: escape_char_def Let_def)
    note sp = surrogate_pair_of [OF pair assms(1)]
    from scan_string_pair [OF sp(1-4), of R] show ?thesis
      unfolding e sp(5) by simp
  qed
qed

text \<open>
  The escaped form of a code point that is not a low surrogate does not read as the
  escape of a low surrogate, and neither does the closing quote.
\<close>

lemma read_low_other: "x \<noteq> 92 \<or> y \<noteq> 117 \<Longrightarrow> read_low (x # y # s') = Inr None"
  by (auto simp: read_low_def)

lemma read_low_single: "x \<noteq> 92 \<Longrightarrow> read_low (x # R) = Inr None"
  by (cases R) (simp_all add: read_low_def)

lemma read_low_escape_char:
  assumes "d < 0x110000" and "\<not> (0xDC00 \<le> d \<and> d \<le> 0xDFFF)"
  shows "read_low (escape_char d @ R) = Inr None"
proof -
  consider "d = 34" | "d = 92" | "d = 8" | "d = 12" | "d = 10" | "d = 13" | "d = 9"
    | (plain) "d \<notin> {34, 92, 8, 12, 10, 13, 9}" "32 \<le> d" "d \<le> 126"
    | (u) "d \<notin> {34, 92, 8, 12, 10, 13, 9}" "\<not> (32 \<le> d \<and> d \<le> 126)" "d < 0x10000"
    | (pair) "0x10000 \<le> d"
    by fastforce
  then show ?thesis
  proof cases
    case 1
    then show ?thesis by (simp add: escape_char_def read_low_other)
  next
    case 2
    then show ?thesis by (simp add: escape_char_def read_low_other)
  next
    case 3
    then show ?thesis by (simp add: escape_char_def py_def read_low_other)
  next
    case 4
    then show ?thesis by (simp add: escape_char_def py_def read_low_other)
  next
    case 5
    then show ?thesis by (simp add: escape_char_def py_def read_low_other)
  next
    case 6
    then show ?thesis by (simp add: escape_char_def py_def read_low_other)
  next
    case 7
    then show ?thesis by (simp add: escape_char_def py_def read_low_other)
  next
    case plain
    then have "escape_char d = [d]"
      by (simp add: escape_char_def)
    then show ?thesis using plain by (simp add: read_low_single)
  next
    case u
    then have e: "escape_char d = bslash # py ''u'' @ hex4_digits d"
      by (simp add: escape_char_def)
    from u(3) assms(2) show ?thesis
      unfolding e py_u using read_low_u [of d R] by simp
  next
    case pair
    let ?hi = "0xD800 + (d - 0x10000) div 1024 mod 1024"
    let ?lo = "0xDC00 + (d - 0x10000) mod 1024"
    from pair have e: "escape_char d
        = bslash # py ''u'' @ hex4_digits ?hi @ bslash # py ''u'' @ hex4_digits ?lo"
      by (simp add: escape_char_def Let_def)
    note sp = surrogate_pair_of [OF pair assms(1)]
    from sp(2) have "?hi < 65536" "\<not> (0xDC00 \<le> ?hi \<and> ?hi \<le> 0xDFFF)" by linarith+
    then show ?thesis
      unfolding e py_u
      using read_low_u [of ?hi "bslash # [117] @ hex4_digits ?lo @ R"] by simp
  qed
qed

lemma scan_string_encoded:
  "list_all (\<lambda>c. c < 0x110000) s \<Longrightarrow> no_surrogate_pair s \<Longrightarrow>
   scan_string (concat (map escape_char s) @ dquote # rest) = Inr (s, rest)"
proof (induction s rule: no_surrogate_pair.induct)
  case 1
  show ?case by (simp add: scan_string.simps)
next
  case (2 c)
  have "read_low (dquote # rest) = Inr None"
    by (rule read_low_single) simp
  with 2 have "scan_string (escape_char c @ dquote # rest) = consed c (scan_string (dquote # rest))"
    by (intro scan_string_escape_char) simp_all
  then show ?case by (simp add: scan_string.simps consed_def)
next
  case (3 c d s)
  let ?R = "concat (map escape_char (d # s)) @ dquote # rest"
  from "3.prems" have c: "c < 0x110000" and d: "d < 0x110000"
    and ds: "list_all (\<lambda>c. c < 0x110000) (d # s)" and nsp: "no_surrogate_pair (d # s)"
    and np: "\<not> (0xD800 \<le> c \<and> c \<le> 0xDBFF \<and> 0xDC00 \<le> d \<and> d \<le> 0xDFFF)"
    by simp_all
  have "0xD800 \<le> c \<and> c \<le> 0xDBFF \<longrightarrow> read_low ?R = Inr None"
  proof
    assume "0xD800 \<le> c \<and> c \<le> 0xDBFF"
    with np have "\<not> (0xDC00 \<le> d \<and> d \<le> 0xDFFF)" by blast
    with d have "read_low (escape_char d @ concat (map escape_char s) @ dquote # rest) = Inr None"
      by (rule read_low_escape_char)
    then show "read_low ?R = Inr None" by simp
  qed
  with c have "scan_string (escape_char c @ ?R) = consed c (scan_string ?R)"
    by (rule scan_string_escape_char)
  also have "scan_string ?R = Inr (d # s, rest)"
    using ds nsp by (rule "3.IH")
  finally show ?case by (simp add: consed_def)
qed

lemma parse_string_encoded:
  "valid_str s \<Longrightarrow> parse_string (encode_basestring_ascii s @ rest) = Inr (s, rest)"
  by (simp add: parse_string_def encode_basestring_ascii_def expect_def and_then_def
      scan_string_encoded valid_str_def)


lemma skip_ws_simps:
  "skip_ws [] = []"
  "skip_ws (c # s) = (if json_ws c then skip_ws s else c # s)"
  by (simp_all add: skip_ws_def)

lemma skip_ws_encoded:
  "skip_ws (encode_basestring_ascii s @ rest) = encode_basestring_ascii s @ rest"
  by (simp add: encode_basestring_ascii_def skip_ws_simps json_ws_def)

lemma and_then_Inr: "and_then (Inr x) f = f x"
  by (simp add: and_then_def)

lemma parse_member_dump_item:
  assumes "valid_str k" and "valid_str v"
  shows "parse_member k (dump_item k v @ rest) = Inr (v, rest)"
proof -
  have "parse_string (encode_basestring_ascii k @ py '': '' @ encode_basestring_ascii v @ rest)
      = Inr (k, py '': '' @ encode_basestring_ascii v @ rest)"
    using assms(1) by (rule parse_string_encoded)
  moreover have "expect 58 (skip_ws (py '': '' @ encode_basestring_ascii v @ rest))
      = Inr (32 # encode_basestring_ascii v @ rest)"
    by (simp add: py_def expect_def skip_ws_simps json_ws_def)
  moreover have "skip_ws (32 # encode_basestring_ascii v @ rest)
      = encode_basestring_ascii v @ rest"
    by (simp add: skip_ws_simps json_ws_def skip_ws_encoded)
  moreover have "parse_string (encode_basestring_ascii v @ rest) = Inr (v, rest)"
    using assms(2) by (rule parse_string_encoded)
  ultimately show ?thesis
    by (simp add: parse_member_def dump_item_def and_then_Inr)
qed

lemma skip_ws_dump_item: "skip_ws (dump_item k v @ rest) = dump_item k v @ rest"
  by (simp add: dump_item_def skip_ws_encoded)

lemma valid_str_py: "valid_str (py ''command'')" "valid_str (py ''base_command'')"
  "valid_str (py ''timestamp'')" "valid_str (py ''full_command'')"
  by (simp_all add: valid_str_def py_def)

lemma skip_indent: "skip_ws (newline # py ''    '' @ s) = skip_ws s"
  "skip_ws (newline # py ''  '' @ s) = skip_ws s"
  by (simp_all add: py_def skip_ws_simps json_ws_def)

lemma expect_head: "expect c (c # s) = Inr s"
  by (simp add: expect_def)

lemma skip_ws_head: "\<not> json_ws c \<Longrightarrow> skip_ws (c # s) = c # s"
  by (simp add: skip_ws_simps)

lemma parse_entry_dump_entry:
  assumes "valid_entry e"
  shows "parse_entry (dump_entry e @ rest) = Inr (e, rest)"
proof -
  from assms have v: "valid_str (command e)" "valid_str (base_command e)"
    "valid_str (timestamp e)" "valid_str (full_command e)"
    by (simp_all add: valid_entry_def)
  have p: "py ''{'' = [123]" "py '','' = [44]" "py ''}'' = [125]"
    by (simp_all add: py_def)
  have w: "\<not> json_ws 44" "\<not> json_ws 125"
    by (simp_all add: json_ws_def)
  show ?thesis
    unfolding parse_entry_def dump_entry_def p
    by (simp add: expect_head and_then_Inr skip_indent skip_ws_dump_item skip_ws_head w
        parse_member_dump_item valid_str_py v)
qed

lemma skip_ws_dump_entry: "skip_ws (dump_entry x @ y) = dump_entry x @ y"
  by (simp add: dump_entry_def py_def skip_ws_simps json_ws_def)

lemma skip_ws_dump_entries:
  "es \<noteq> [] \<Longrightarrow> skip_ws (dump_entries es @ x) = dump_entries es @ x"
proof (cases es)
  case Nil
  assume "es \<noteq> []"
  with Nil show ?thesis by simp
next
  case (Cons e es')
  then show ?thesis
    using skip_ws_dump_entry [of e] by (cases es') simp_all
qed

lemma parse_entries_dump_entries:
  "es \<noteq> [] \<Longrightarrow> list_all valid_entry es \<Longrightarrow>
   parse_entries (dump_entries es @ newline # 93 # rest) = Inr (es, rest)"
proof (induction es rule: dump_entries.induct)
  case 1
  then show ?case by simp
next
  case (2 e)
  then have "parse_entry (dump_entry e @ newline # 93 # rest) = Inr (e, newline # 93 # rest)"
    by (intro parse_entry_dump_entry) simp
  then show ?case
    by (subst parse_entries.simps) (simp add: skip_ws_simps json_ws_def)
next
  case (3 e e' es)
  let ?R = "py '','' @ newline # py ''  '' @ dump_entries (e' # es) @ newline # 93 # rest"
  from "3.prems" have "parse_entry (dump_entry e @ ?R) = Inr (e, ?R)"
    by (intro parse_entry_dump_entry) simp
  moreover have "skip_ws ?R = 44 # newline # py ''  '' @ dump_entries (e' # es) @ newline # 93 # rest"
    by (simp add: py_def skip_ws_simps json_ws_def)
  moreover have "skip_ws (newline # py ''  '' @ dump_entries (e' # es) @ newline # 93 # rest)
      = dump_entries (e' # es) @ newline # 93 # rest"
    unfolding skip_indent by (rule skip_ws_dump_entries) simp
  moreover have "parse_entries (dump_entries (e' # es) @ newline # 93 # rest) = Inr (e' # es, rest)"
    using "3.prems" by (intro "3.IH") simp_all
  moreover have "dump_entries (e # e' # es) @ newline # 93 # rest = dump_entry e @ ?R"
    by simp
  ultimately show ?case
    by (subst parse_entries.simps) (simp del: dump_entries.simps)
qed

lemma json_load_array:
  assumes "skip_ws text = 91 # r" and "skip_ws r = c' # r'" and "c' \<noteq> 93"
    and "parse_entries (skip_ws r) = Inr (es, rest)" and "skip_ws rest = []"
  shows "json_load text = Inr es"
  using assms(3-5) unfolding json_load_def assms(1) by (simp add: assms(2) [symmetric]) (simp add: assms(2))

lemma json_load_json_dump:
  assumes "list_all valid_entry es"
  shows "json_load (json_dump es) = Inr es"
proof (cases "es = []")
  case True
  then show ?thesis
    by (simp add: json_load_def json_dump_def py_def skip_ws_simps json_ws_def)
next
  case False
  let ?D = "dump_entries es @ newline # 93 # []"
  have d: "json_dump es = 91 # newline # py ''  '' @ ?D"
    using False by (simp add: json_dump_def py_def)
  have s0: "skip_ws (json_dump es) = 91 # newline # py ''  '' @ ?D"
    unfolding d by (simp add: skip_ws_simps json_ws_def)
  have s1: "skip_ws (newline # py ''  '' @ ?D) = ?D"
    unfolding skip_indent using False by (rule skip_ws_dump_entries)
  obtain e es' where es: "es = e # es'"
    using False by (cases es) auto
  have "\<exists>r. ?D = 123 # r"
    unfolding es by (cases es') (simp_all add: dump_entry_def py_def)
  then obtain r where r: "?D = 123 # r" by blast
  have p: "parse_entries ?D = Inr (es, [])"
    using False assms by (rule parse_entries_dump_entries)
  show ?thesis
  proof (rule json_load_array [OF s0])
    show "skip_ws (newline # py ''  '' @ ?D) = 123 # r"
      unfolding s1 by (rule r)
    show "(123 :: nat) \<noteq> 93" by simp
    show "parse_entries (skip_ws (newline # py ''  '' @ ?D)) = Inr (es, [])"
      unfolding s1 by (rule p)
    show "skip_ws [] = []" by (simp add: skip_ws_simps)
  qed
qed

section \<open>Claims about the persisted file\<close>




text \<open>
  C9. \<open>load_commands\<close> applies no cap: from a file that decodes to more than 10000
  entries all of them are in memory after the load, whatever the tracker held before;
  the file that \<open>save_commands\<close> writes for such a list is one. They stay there
  through a \<open>log_command\<close> of a blank line, which appends nothing; the next
  \<open>log_command\<close> that appends cuts the list to the last 10000.
\<close>

theorem load_commands_no_cap:
  assumes "10000 < length es"
    and "json_load text = Inr es \<or> (list_all valid_entry es \<and> text = json_dump es)"
  shows "\<exists>t'. load_commands (t\<lparr>commands_file := Some text\<rparr>) = Inr t'
      \<and> commands t' = es
      \<and> 10000 < length (commands t')
      \<and> ((\<forall>c\<in>set raw. isspace c) \<longrightarrow> commands (log_command now raw t') = es)
      \<and> ((\<exists>c\<in>set raw. \<not> isspace c) \<longrightarrow>
           commands (log_command now raw t') = drop (length es - 9999) es @ [entry_of now raw]
           \<and> length (commands (log_command now raw t')) = 10000)"
proof -
  from assms(2) have j: "json_load text = Inr es"
    by (auto simp: json_load_json_dump)
  let ?t' = "t\<lparr>commands := es, commands_file := Some text\<rparr>"
  have l: "load_commands (t\<lparr>commands_file := Some text\<rparr>) = Inr ?t'"
    by (simp add: load_commands_def j)
  have b: "(\<forall>c\<in>set raw. isspace c) \<longrightarrow> commands (log_command now raw ?t') = es"
    by (simp add: log_command_blank)
  have a: "(\<exists>c\<in>set raw. \<not> isspace c) \<longrightarrow>
           commands (log_command now raw ?t') = drop (length es - 9999) es @ [entry_of now raw]
           \<and> length (commands (log_command now raw ?t')) = 10000"
    using assms(1) by (auto simp: log_command_commands)
  from l b a assms(1) show ?thesis by auto
qed

theorem load_commands_no_cap_witness:
  "\<exists>t'. load_commands
        (\<lparr>commands = [], commands_file = None\<rparr>
           \<lparr>commands_file := Some (json_dump
              (replicate 10001 (entry_of (py ''2024-05-01T10:00:00'') (py ''ls''))))\<rparr>)
       = Inr t'
      \<and> commands t' = replicate 10001 (entry_of (py ''2024-05-01T10:00:00'') (py ''ls''))
      \<and> 10000 < length (commands t')
      \<and> length (commands (log_command (py ''2024-05-01T10:01:00'') (py ''pwd'') t')) = 10000"
proof -
  let ?es = "replicate 10001 (entry_of (py ''2024-05-01T10:00:00'') (py ''ls''))"
  have h: "10000 < length ?es"
    by simp
  have e: "entry_of (py ''2024-05-01T10:00:00'') (py ''ls'')
      = \<lparr>command = py ''ls'', base_command = py ''ls'',
         timestamp = py ''2024-05-01T10:00:00'', full_command = py ''ls''\<rparr>"
    by code_simp
  have "valid_entry (entry_of (py ''2024-05-01T10:00:00'') (py ''ls''))"
    unfolding e by (simp add: valid_entry_def valid_str_def py_def)
  then have v: "json_load (json_dump ?es) = Inr ?es \<or> (list_all valid_entry ?es \<and> json_dump ?es = json_dump ?es)"
    by (simp add: list_all_iff)
  have p: "\<exists>c\<in>set (py ''pwd''). \<not> isspace c"
    by (simp add: py_def isspace_def)
  from load_commands_no_cap [OF h v, of "\<lparr>commands = [], commands_file = None\<rparr>"
      "py ''pwd''" "py ''2024-05-01T10:01:00''"] p
  show ?thesis by blast
qed

text \<open>
  C3 (amended). An append writes the file in place. When the write completes, the file
  holds the JSON text of the whole resulting sequence. The write is not atomic: when
  it fails after \<open>k\<close> characters, the file holds those \<open>k\<close> characters of the new
  text and nothing of its previous content, while the list in memory is the new one.
\<close>

theorem save_commands_in_place:
  "((\<exists>c\<in>set raw. \<not> isspace c) \<longrightarrow>
      log_command now raw t
        = save_commands
            (t\<lparr>commands := drop (length (commands t) + 1 - 10000)
                              (commands t @ [entry_of now raw])\<rparr>))
   \<and> commands_file (save_commands t) = Some (json_dump (commands t))
   \<and> commands_file (save_commands_interrupted k t) = Some (take k (json_dump (commands t)))
   \<and> commands (save_commands_interrupted k t) = commands t
   \<and> (length (json_dump (commands t)) \<le> k \<longrightarrow>
        save_commands_interrupted k t = save_commands t)"
proof (intro conjI impI)
  assume a: "\<exists>c\<in>set raw. \<not> isspace c"
  have "commands_file (log_command now raw t)
      = Some (json_dump (commands (log_command now raw t)))"
    using a by (rule log_command_file)
  moreover have "commands (log_command now raw t)
      = drop (length (commands t) + 1 - 10000) (commands t @ [entry_of now raw])"
    using a by (rule log_command_commands)
  ultimately show "log_command now raw t
        = save_commands
            (t\<lparr>commands := drop (length (commands t) + 1 - 10000)
                              (commands t @ [entry_of now raw])\<rparr>)"
    using a command_empty_iff [of raw]
    by (auto simp: log_command_def Let_def save_commands_def)
qed (simp_all add: save_commands_def save_commands_interrupted_def)

theorem save_commands_in_place_witness:
  "log_command (py ''2024-05-01T10:00:00'') (py ''ls -la'') \<lparr>commands = [], commands_file = None\<rparr>
     = save_commands
         (\<lparr>commands = [], commands_file = None\<rparr>
            \<lparr>commands := drop (length (commands \<lparr>commands = [], commands_file = None\<rparr>) + 1 - 10000)
                (commands \<lparr>commands = [], commands_file = None\<rparr>
                   @ [entry_of (py ''2024-05-01T10:00:00'') (py ''ls -la'')])\<rparr>)
   \<and> save_commands_interrupted 1000 \<lparr>commands = [], commands_file = Some (py ''[]'')\<rparr>
     = save_commands \<lparr>commands = [], commands_file = Some (py ''[]'')\<rparr>"
proof -
  have h1: "\<exists>c\<in>set (py ''ls -la''). \<not> isspace c"
    by (simp add: py_def isspace_def)
  have h2: "length (json_dump (commands \<lparr>commands = [], commands_file = Some (py ''[]'')\<rparr>)) \<le> 1000"
    by (simp add: json_dump_def py_def)
  note s1 = save_commands_in_place [of "py ''ls -la''" "py ''2024-05-01T10:00:00''"
      "\<lparr>commands = [], commands_file = None\<rparr>" 0]
  note s2 = save_commands_in_place [of "[]" "[]"
      "\<lparr>commands = [], commands_file = Some (py ''[]'')\<rparr>" 1000]
  note c1 = s1 [THEN conjunct1, THEN mp, OF h1]
  note c2 = s2 [THEN conjunct2, THEN conjunct2, THEN conjunct2, THEN conjunct2, THEN mp, OF h2]
  show ?thesis using c1 c2 by (rule conjI)
qed

theorem save_commands_in_place_counterexample:
  "load_commands
     \<lparr>commands = [],
      commands_file = Some (json_dump
        [\<lparr>command = py ''ls'', base_command = py ''ls'',
           timestamp = py ''2024-05-01T10:00:00'', full_command = py ''ls''\<rparr>])\<rparr>
     = Inr \<lparr>commands =
          [\<lparr>command = py ''ls'', base_command = py ''ls'',
             timestamp = py ''2024-05-01T10:00:00'', full_command = py ''ls''\<rparr>],
        commands_file = Some (json_dump
          [\<lparr>command = py ''ls'', base_command = py ''ls'',
             timestamp = py ''2024-05-01T10:00:00'', full_command = py ''ls''\<rparr>])\<rparr>
   \<and> commands_file (save_commands_interrupted 40
       \<lparr>commands =
          [\<lparr>command = py ''ls'', base_command = py ''ls'',
             timestamp = py ''2024-05-01T10:00:00'', full_command = py ''ls''\<rparr>,
           \<lparr>command = py ''pwd'', base_command = py ''pwd'',
             timestamp = py ''2024-05-01T10:01:00'', full_command = py ''pwd''\<rparr>],
        commands_file = Some (json_dump
          [\<lparr>command = py ''ls'', base_command = py ''ls'',
             timestamp = py ''2024-05-01T10:00:00'', full_command = py ''ls''\<rparr>])\<rparr>)
     = Some (py ''['' @ newline # py ''  {'' @ newline # py ''    '' @ dquote # py ''command''
          @ dquote # py '': '' @ dquote # py ''ls'' @ dquote # py '','' @ newline # py ''    ''
          @ dquote # py ''base_com'')
   \<and> load_commands (save_commands_interrupted 40
       \<lparr>commands =
          [\<lparr>command = py ''ls'', base_command = py ''ls'',
             timestamp = py ''2024-05-01T10:00:00'', full_command = py ''ls''\<rparr>,
           \<lparr>command = py ''pwd'', base_command = py ''pwd'',
             timestamp = py ''2024-05-01T10:01:00'', full_command = py ''pwd''\<rparr>],
        commands_file = Some (json_dump
          [\<lparr>command = py ''ls'', base_command = py ''ls'',
             timestamp = py ''2024-05-01T10:00:00'', full_command = py ''ls''\<rparr>])\<rparr>)
     = Inl JSONDecodeError"
  by code_simp

end
